(* ===== verification/Prelude.thy ===== *)
theory Prelude
  imports Main "HOL-Library.Word" "HOL-Library.Monad_Syntax"
begin

text \<open>
  Shared vocabulary of the development: the machine integer types of the C
  source (\<open>uint8_t\<close>, \<open>unsigned int\<close> / \<open>uint32_t\<close>, \<open>size_t\<close>), the type of
  results of operations that can run into undefined behaviour, the fact
  collections the component theories feed, and the lemmas on words and sums
  that several components use.
\<close>

unbundle bit_operations_syntax

section \<open>Fact collections\<close>

named_theorems hm_defs \<open>definitions of the modelled C functions, for unfolding\<close>
named_theorems heap_defs \<open>definitions of the allocator model, for unfolding\<close>
named_theorems inv_defs \<open>definitions of the well-formedness predicates\<close>

section \<open>Machine integers\<close>

type_synonym u8 = "8 word"
type_synonym u16 = "16 word"
type_synonym u32 = "32 word"
type_synonym u64 = "64 word"

text \<open>
  A loop counter \<open>i\<close> that is below a bound \<open>c\<close> of the same width can be
  incremented without wrapping; this is the step every counting loop of the
  source takes.
\<close>

lemma unat_Suc_less: "i < c \<Longrightarrow> unat (i + 1) = Suc (unat i)" for i c :: "'a::len word"
  by unat_arith

lemma loop_measure_less:
  "i < c \<Longrightarrow> c' \<le> c \<Longrightarrow> unat c' - unat (i + 1) < unat c - unat i" for i c c' :: "'a::len word"
  by unat_arith

lemma not_less_Suc_word: "i < c \<Longrightarrow> \<not> i + 1 < c \<Longrightarrow> i + 1 = c" for i c :: "'a::len word"
  by unat_arith

lemma word_nat_induct_up [case_names stop step]:
  fixes c :: "'a::len word"
  assumes stop: "\<And>i. \<not> i < c \<Longrightarrow> P i"
    and step: "\<And>i. i < c \<Longrightarrow> P (i + 1) \<Longrightarrow> P i"
  shows "P i"
proof (induction "unat c - unat i" arbitrary: i rule: less_induct)
  case less
  show ?case
  proof (cases "i < c")
    case True
    then have "unat c - unat (i + 1) < unat c - unat i"
      by (rule loop_measure_less) simp
    then have "P (i + 1)" by (rule less)
    with True show ?thesis by (rule step)
  next
    case False
    then show ?thesis by (rule stop)
  qed
qed

section \<open>Results of operations with undefined behaviour\<close>

text \<open>
  Each way in which the C program can leave defined behaviour is a value:
  an operation returns \<open>Inl e\<close> where the C standard gives the execution no
  meaning, and \<open>Inr x\<close> where it returns \<open>x\<close>.
\<close>

datatype error =
    NullDeref      \<comment> \<open>access through a null pointer\<close>
  | UseAfterFree   \<comment> \<open>access through a pointer whose block was released\<close>
  | OutOfBounds    \<comment> \<open>access past the end of an allocated block\<close>
  | UninitRead     \<comment> \<open>read of a slot that was never written\<close>
  | DoubleFree     \<comment> \<open>release of a block that is not allocated\<close>
  | UndefinedShift \<comment> \<open>shift by a negative count or by at least the width\<close>

type_synonym 'a result = "error + 'a"

definition bindE :: "'e + 'a \<Rightarrow> ('a \<Rightarrow> 'e + 'b) \<Rightarrow> 'e + 'b" where
  "bindE m f = (case m of Inl e \<Rightarrow> Inl e | Inr x \<Rightarrow> f x)"

definition is_ok :: "'e + 'a \<Rightarrow> bool" where
  "is_ok m = (case m of Inl _ \<Rightarrow> False | Inr _ \<Rightarrow> True)"

lemma bindE_Inl [simp]: "bindE (Inl e) f = Inl e"
  by (simp add: bindE_def)

lemma bindE_Inr [simp]: "bindE (Inr x) f = f x"
  by (simp add: bindE_def)

lemma bindE_eq_Inr_iff: "bindE m f = Inr y \<longleftrightarrow> (\<exists>x. m = Inr x \<and> f x = Inr y)"
  by (cases m) simp_all

lemma bindE_eq_Inl_iff:
  "bindE m f = Inl e \<longleftrightarrow> m = Inl e \<or> (\<exists>x. m = Inr x \<and> f x = Inl e)"
  by (cases m) simp_all

lemma bindE_assoc: "bindE (bindE m f) g = bindE m (\<lambda>x. bindE (f x) g)"
  by (cases m) simp_all

lemma bindE_cong [fundef_cong]:
  "m = m' \<Longrightarrow> (\<And>x. m' = Inr x \<Longrightarrow> f x = f' x) \<Longrightarrow> bindE m f = bindE m' f'"
  by (cases m') simp_all

lemma is_ok_simps [simp]: "is_ok (Inr x)" "\<not> is_ok (Inl e)"
  by (simp_all add: is_ok_def)

lemma is_ok_iff: "is_ok m \<longleftrightarrow> (\<exists>x. m = Inr x)"
  by (cases m) simp_all

lemma is_ok_bindE: "is_ok (bindE m f) \<longleftrightarrow> (\<exists>x. m = Inr x \<and> is_ok (f x))"
  by (cases m) simp_all

end
