(* ===== verification/Double.thy ===== *)
theory Double
  imports Prelude
begin

text \<open>
  The C type \<open>double\<close> as the source uses it: a 64-bit IEEE-754 binary64
  value that is stored, copied, compared with \<open>==\<close> and read byte by byte
  through the union \<open>double_u\<close>, and on which no arithmetic is done. A value
  is modelled by its bit pattern.
\<close>

type_synonym double = u64

section \<open>The union \<open>double_u\<close>\<close>

text \<open>
  \<open>number.bytes[i]\<close> for \<open>number.value = v\<close>: byte \<open>i\<close> of the object
  representation, least significant byte first (the layout of the little-endian
  targets the program is built for). The array has 8 elements; an index past
  it has no defined value.
\<close>

definition bytes :: "double \<Rightarrow> u32 \<Rightarrow> u8 result" where
  "bytes v i = (if i < 8 then Inr (ucast (drop_bit (8 * unat i) v)) else Inl OutOfBounds)"

section \<open>Comparison with \<open>==\<close>\<close>

definition is_nan :: "double \<Rightarrow> bool" where
  "is_nan x \<longleftrightarrow> 0x7FF0000000000000 < take_bit 63 x"

definition is_zero :: "double \<Rightarrow> bool" where
  "is_zero x \<longleftrightarrow> x = 0 \<or> x = 0x8000000000000000"

definition double_eq :: "double \<Rightarrow> double \<Rightarrow> bool" where
  "double_eq a b \<longleftrightarrow> \<not> is_nan a \<and> \<not> is_nan b \<and> (a = b \<or> (is_zero a \<and> is_zero b))"

lemma double_eq_refl_iff [simp]: "double_eq a a \<longleftrightarrow> \<not> is_nan a"
  by (auto simp: double_eq_def)

lemma double_eq_sym: "double_eq a b \<longleftrightarrow> double_eq b a"
  by (auto simp: double_eq_def)

lemma double_eq_trans: "double_eq a b \<Longrightarrow> double_eq b c \<Longrightarrow> double_eq a c"
  by (auto simp: double_eq_def)

lemma double_eq_same_right: "double_eq a c \<Longrightarrow> double_eq b c \<Longrightarrow> double_eq a b"
  by (auto simp: double_eq_def)

lemma double_eq_same_left: "double_eq c a \<Longrightarrow> double_eq c b \<Longrightarrow> double_eq a b"
  by (auto simp: double_eq_def)

lemma double_eq_cong: "double_eq k k' \<Longrightarrow> double_eq a k' \<longleftrightarrow> double_eq a k"
  by (auto simp: double_eq_def)

lemma is_nan_not_eq [simp]: "is_nan a \<Longrightarrow> \<not> double_eq a b" "is_nan a \<Longrightarrow> \<not> double_eq b a"
  by (auto simp: double_eq_def)

lemma is_zero_not_nan: "is_zero a \<Longrightarrow> \<not> is_nan a"
  by (auto simp: is_zero_def is_nan_def)

lemma double_eq_cases: "double_eq a b \<Longrightarrow> a = b \<or> (is_zero a \<and> is_zero b \<and> a \<noteq> b)"
  by (auto simp: double_eq_def)

lemma double_eq_nonzero: "\<not> is_zero a \<Longrightarrow> double_eq a b \<longleftrightarrow> \<not> is_nan a \<and> a = b"
  by (auto simp: double_eq_def)

end
