(* ===== verification/Hash.thy ===== *)
theory Hash
  imports Double
begin

text \<open>
  The hash function of \<open>src/hashmap.c\<close> (lines 10 to 32): the two rotation
  helpers, the mixing loop over the eight bytes of the key and the final
  avalanche step. Every shift of the source takes its count from a loop
  counter, and several counts reach or pass the width of the shifted operand,
  where ISO C gives the shift no meaning. The model keeps both readings: the
  parameter \<open>sem\<close> of every function says whether such a shift is undefined
  behaviour (\<open>ISO_C\<close>) or uses the count modulo 32 (\<open>Masked\<close>, what the
  x86 shift instructions do and what the specification asks for).
\<close>

section \<open>Shifts of \<open>unsigned int\<close>\<close>

datatype shift_sem = ISO_C | Masked

text \<open>\<open>n << k\<close> and \<open>n >> k\<close> for a 32-bit unsigned \<open>n\<close> and an integer count \<open>k\<close>.\<close>

definition shl :: "shift_sem \<Rightarrow> u32 \<Rightarrow> int \<Rightarrow> u32 result" where
  "shl sem n k = (case sem of
      ISO_C \<Rightarrow> if 0 \<le> k \<and> k < 32 then Inr (push_bit (nat k) n) else Inl UndefinedShift
    | Masked \<Rightarrow> Inr (push_bit (nat (k mod 32)) n))"

definition shr :: "shift_sem \<Rightarrow> u32 \<Rightarrow> int \<Rightarrow> u32 result" where
  "shr sem n k = (case sem of
      ISO_C \<Rightarrow> if 0 \<le> k \<and> k < 32 then Inr (drop_bit (nat k) n) else Inl UndefinedShift
    | Masked \<Rightarrow> Inr (drop_bit (nat (k mod 32)) n))"

text \<open>
  \<open>(sizeof(n) * 8) - amount\<close>: the subtraction is done in \<open>size_t\<close> (64 bits,
  unsigned), to which the \<open>int\<close> amount is converted, so it wraps for amounts
  above 32.
\<close>

definition width_minus :: "int \<Rightarrow> int" where
  "width_minus amount = uint ((32 :: u64) - word_of_int amount)"

section \<open>Rotations\<close>

definition rotateLeft :: "shift_sem \<Rightarrow> u32 \<Rightarrow> int \<Rightarrow> u32 result" where
  "rotateLeft sem n amount =
     bindE (shl sem n amount) (\<lambda>hi.
     bindE (shr sem n (width_minus amount)) (\<lambda>lo.
     Inr (hi OR lo)))"

definition rotateRight :: "shift_sem \<Rightarrow> u32 \<Rightarrow> int \<Rightarrow> u32 result" where
  "rotateRight sem n amount =
     bindE (shr sem n amount) (\<lambda>lo.
     bindE (shl sem n (width_minus amount)) (\<lambda>hi.
     Inr (lo OR hi)))"

section \<open>The hash function\<close>

definition HASH_SALT :: u32 where
  "HASH_SALT = 0x79812793"

text \<open>
  One iteration of the loop of \<open>hashFunction\<close> for the counter \<open>i\<close>, from
  the accumulated \<open>result\<close> to the next one. The byte \<open>data[i]\<close> is promoted
  to 32 bits before \<open>i\<close> is added; the amounts \<open>i*8\<close> and \<open>i*5\<close> are
  converted to the \<open>int\<close> parameter of the rotations, the counts \<open>i*11\<close> and
  \<open>i*3\<close> stay unsigned.
\<close>

definition hash_step :: "shift_sem \<Rightarrow> double \<Rightarrow> u32 \<Rightarrow> u32 \<Rightarrow> u32 result" where
  "hash_step sem v i result =
     bindE (bytes v i) (\<lambda>d.
     bindE (if d AND 1 \<noteq> 0
            then bindE (rotateLeft sem (ucast d + i) 3) (\<lambda>r. rotateRight sem r (sint (i * 8)))
            else bindE (rotateRight sem (ucast d + i) 3) (\<lambda>r. rotateLeft sem r (sint (i * 5))))
       (\<lambda>modify.
     bindE (shr sem modify (uint (i * 11))) (\<lambda>a.
     bindE (shl sem modify (uint (i * 3))) (\<lambda>b.
     Inr (result XOR (modify XOR a XOR b))))))"

function hash_loop :: "shift_sem \<Rightarrow> double \<Rightarrow> u32 \<Rightarrow> u32 \<Rightarrow> u32 result" where
  "hash_loop sem v i result =
     (if i < 8 then bindE (hash_step sem v i result) (\<lambda>r. hash_loop sem v (i + 1) r)
      else Inr result)"
  by pat_completeness auto
termination
proof (relation "measure (\<lambda>(sem, v, i, r). 8 - unat i)", goal_cases)
  case 1
  show ?case by simp
next
  case (2 sem v i result x)
  then have "unat (8 :: u32) - unat (i + 1) < unat (8 :: u32) - unat i"
    by (intro loop_measure_less) simp_all
  then show ?case by simp
qed

declare hash_loop.simps [simp del]

definition hashFunction :: "shift_sem \<Rightarrow> double \<Rightarrow> u32 result" where
  "hashFunction sem v =
     bindE (hash_loop sem v 0 0) (\<lambda>r.
     let result = r + HASH_SALT in
     bindE (rotateRight sem result 16) (\<lambda>rr. Inr (result XOR rr)))"

lemmas hash_defs [hm_defs] =
  hashFunction_def hash_step_def rotateLeft_def rotateRight_def shl_def shr_def
  width_minus_def HASH_SALT_def bytes_def

section \<open>Reference definition\<close>

text \<open>
  The algorithm as the specification words it, with the rotations of the word
  library and every shift count reduced modulo 32. The one thing the
  specification and the source disagree on is the width of the addition
  \<open>byte + i\<close>, so the reference takes it as a parameter: \<open>addend32\<close> is what
  the source computes, \<open>addend8\<close> what the specification describes.
\<close>

definition addend32 :: "u8 \<Rightarrow> nat \<Rightarrow> u32" where
  "addend32 d i = ucast d + of_nat i"

definition addend8 :: "u8 \<Rightarrow> nat \<Rightarrow> u32" where
  "addend8 d i = ucast (d + of_nat i)"

definition mix :: "(u8 \<Rightarrow> nat \<Rightarrow> u32) \<Rightarrow> double \<Rightarrow> nat \<Rightarrow> u32" where
  "mix addend v i =
     (let d = ucast (drop_bit (8 * i) v) :: u8;
          b = addend d i;
          m = (if bit d 0 then word_rotr (8 * i) (word_rotl 3 b)
               else word_rotl (5 * i) (word_rotr 3 b))
      in m XOR drop_bit (11 * i mod 32) m XOR push_bit (3 * i mod 32) m)"

definition hash_gen :: "(u8 \<Rightarrow> nat \<Rightarrow> u32) \<Rightarrow> double \<Rightarrow> u32" where
  "hash_gen addend v =
     (let r = fold (\<lambda>i acc. acc XOR mix addend v i) [0..<8] 0 + 0x79812793
      in r XOR word_rotr 16 r)"

abbreviation hash_ref :: "double \<Rightarrow> u32" where
  "hash_ref \<equiv> hash_gen addend32"

abbreviation hash_spec :: "double \<Rightarrow> u32" where
  "hash_spec \<equiv> hash_gen addend8"

section \<open>Rotation by two shifts\<close>

lemma rotl_shifts_aux:
  fixes n :: u32
  assumes "k < 32"
  shows "push_bit k n OR drop_bit ((32 - k) mod 32) n = word_rotl k n"
proof (rule bit_word_eqI)
  fix j assume j: "j < LENGTH(32)"
  show "bit (push_bit k n OR drop_bit ((32 - k) mod 32) n) j = bit (word_rotl k n) j"
  proof (cases "k \<le> j")
    case True
    with j assms have "(j + (32 - k)) mod 32 = j - k"
      by (simp add: mod_if)
    moreover have "\<not> bit n ((32 - k) mod 32 + j)" if "0 < k"
      using that True assms by (auto simp: mod_if dest!: bit_imp_le_length)
    moreover have "(32 - k) mod 32 + j = j" if "k = 0"
      using that by simp
    ultimately show ?thesis using j assms True
      by (cases "k = 0") (auto simp: bit_simps)
  next
    case False
    with j assms have "(j + (32 - k)) mod 32 = (32 - k) mod 32 + j"
      by (auto simp: mod_if)
    then show ?thesis using j assms False
      by (auto simp: bit_simps)
  qed
qed

lemma rotr_shifts_aux:
  fixes n :: u32
  assumes "k < 32"
  shows "drop_bit k n OR push_bit ((32 - k) mod 32) n = word_rotr k n"
proof (rule bit_word_eqI)
  fix j assume j: "j < LENGTH(32)"
  show "bit (drop_bit k n OR push_bit ((32 - k) mod 32) n) j = bit (word_rotr k n) j"
  proof (cases "j + k < 32")
    case True
    then have "(j + k) mod 32 = k + j" by simp
    moreover have "\<not> (32 - k) mod 32 \<le> j" if "0 < k"
      using that True by (auto simp: mod_if)
    moreover have "bit (push_bit ((32 - k) mod 32) n) j = bit n j" if "k = 0"
      using that j by (simp add: bit_simps)
    ultimately show ?thesis using j assms True
      by (cases "k = 0") (auto simp: bit_simps add.commute)
  next
    case False
    with j assms have "(j + k) mod 32 = j - (32 - k) mod 32" "(32 - k) mod 32 \<le> j"
      by (auto simp: mod_if)
    moreover from False have "\<not> bit n (k + j)"
      by (auto dest!: bit_imp_le_length)
    ultimately show ?thesis using j assms False
      by (auto simp: bit_simps)
  qed
qed

lemma complement_count:
  fixes k m :: nat
  assumes "k < 32" "m < 32" "(k + m) mod 32 = 0"
  shows "m = (32 - k) mod 32"
proof -
  from assms(3) obtain q where q: "k + m = 32 * q"
    by (auto simp: mod_eq_0_iff_dvd)
  with assms(1,2) have "q = 0 \<or> q = 1" by arith
  with q assms(1,2) show ?thesis by auto
qed

lemma rotl_shifts:
  fixes n :: u32
  assumes "k < 32" "m < 32" "(k + m) mod 32 = 0"
  shows "push_bit k n OR drop_bit m n = word_rotl k n"
  using rotl_shifts_aux [OF assms(1), of n] complement_count [OF assms] by (simp only:)

lemma rotr_shifts:
  fixes n :: u32
  assumes "k < 32" "m < 32" "(k + m) mod 32 = 0"
  shows "drop_bit k n OR push_bit m n = word_rotr k n"
  using rotr_shifts_aux [OF assms(1), of n] complement_count [OF assms] by (simp only:)

lemma width_minus_mod: "width_minus a mod 32 = (32 - a) mod 32"
proof -
  have "width_minus a = (32 - a) mod 2 ^ 64"
    by (simp add: width_minus_def uint_word_ariths uint_word_of_int mod_diff_right_eq take_bit_eq_mod)
  moreover have "(32 :: int) dvd 2 ^ 64" by simp
  ultimately show ?thesis by (simp only: mod_mod_cancel)
qed

lemma width_minus_small: "0 \<le> a \<Longrightarrow> a \<le> 32 \<Longrightarrow> width_minus a = 32 - a"
  by (simp add: width_minus_def uint_word_ariths uint_word_of_int take_bit_eq_mod mod_diff_right_eq)

lemma nat_mod_32_less: "nat (a mod 32) < 32" for a :: int
  by (simp add: nat_less_iff)

lemma masked_counts: "(nat (a mod 32) + nat (width_minus a mod 32)) mod 32 = 0"
proof -
  have "int ((nat (a mod 32) + nat (width_minus a mod 32)) mod 32)
          = (a mod 32 + (32 - a) mod 32) mod 32"
    by (simp add: width_minus_mod zmod_int)
  also have "\<dots> = (a + (32 - a)) mod 32"
    by (simp only: mod_add_eq)
  finally show ?thesis by simp
qed

text \<open>
  Under the masked reading, \<open>rotateLeft\<close> of the source (a left shift or-ed
  with a right shift by the complementary count) is the rotation \<open>word_rotl\<close> of the
  word library by the amount modulo 32, for every amount, zero and amounts of 32 or more
  included.
\<close>

lemma rotateLeft_Masked: "rotateLeft Masked n a = Inr (word_rotl (nat (a mod 32)) n)"
  unfolding rotateLeft_def shl_def shr_def
  by (simp only: shift_sem.case bindE_Inr rotl_shifts [OF nat_mod_32_less nat_mod_32_less masked_counts])

text \<open>
  Under the masked reading, \<open>rotateRight\<close> of the source is the library
  rotation \<open>word_rotr\<close> by the amount modulo 32, for every amount.
\<close>

lemma rotateRight_Masked: "rotateRight Masked n a = Inr (word_rotr (nat (a mod 32)) n)"
  unfolding rotateRight_def shl_def shr_def
  by (simp only: shift_sem.case bindE_Inr rotr_shifts [OF nat_mod_32_less nat_mod_32_less masked_counts])

lemma iso_counts:
  assumes "0 < a" "a < 32"
  shows "nat a < 32" "nat (32 - a) < 32" "(nat a + nat (32 - a)) mod 32 = 0"
  using assms by (simp_all add: nat_add_distrib [symmetric])

text \<open>
  Under ISO C, \<open>rotateLeft\<close> is defined exactly for the amounts 1 to 31, where
  it is the rotation \<open>word_rotl\<close>; for the amount 0 the complementary shift is a
  shift by 32, and for a negative amount or one of at least 32 the first shift is out of
  range: in both cases the call is undefined behaviour.
\<close>

lemma rotateLeft_ISO_C:
  "rotateLeft ISO_C n a =
     (if 0 < a \<and> a < 32 then Inr (word_rotl (nat a) n) else Inl UndefinedShift)"
proof (cases "0 < a \<and> a < 32")
  case True
  then have "width_minus a = 32 - a" by (simp add: width_minus_small)
  with True show ?thesis
    by (simp add: rotateLeft_def shl_def shr_def rotl_shifts [OF iso_counts])
next
  case False
  then consider "a < 0" | "a = 0" | "32 \<le> a" by linarith
  then show ?thesis
    by cases (simp_all add: rotateLeft_def shl_def shr_def width_minus_small)
qed

text \<open>
  Under ISO C, \<open>rotateRight\<close> is defined exactly for the amounts 1 to 31,
  where it is \<open>word_rotr\<close>, and is undefined behaviour for every other amount.
\<close>

lemma rotateRight_ISO_C:
  "rotateRight ISO_C n a =
     (if 0 < a \<and> a < 32 then Inr (word_rotr (nat a) n) else Inl UndefinedShift)"
proof (cases "0 < a \<and> a < 32")
  case True
  then have "width_minus a = 32 - a" by (simp add: width_minus_small)
  with True show ?thesis
    by (simp add: rotateRight_def shl_def shr_def rotr_shifts [OF iso_counts])
next
  case False
  then consider "a < 0" | "a = 0" | "32 \<le> a" by linarith
  then show ?thesis
    by cases (simp_all add: rotateRight_def shl_def shr_def width_minus_small)
qed

lemma hash_step_0_ISO_C: "hash_step ISO_C v 0 r = Inl UndefinedShift"
  by (simp add: hash_step_def bytes_def rotateLeft_ISO_C rotateRight_ISO_C)

lemma xor_rotr16_halves:
  fixes r :: u32
  shows "drop_bit 16 (r XOR word_rotr 16 r) = take_bit 16 (r XOR word_rotr 16 r)"
proof (rule bit_word_eqI)
  fix j assume "j < LENGTH(32)"
  show "bit (drop_bit 16 (r XOR word_rotr 16 r)) j = bit (take_bit 16 (r XOR word_rotr 16 r)) j"
  proof (cases "j < 16")
    case True
    then have "(16 + j + 16) mod 32 = j" "(j + 16) mod 32 = 16 + j" by simp_all
    with True show ?thesis by (auto simp: bit_simps add.commute)
  next
    case False
    then have "\<not> bit r (16 + j)" "\<not> bit (word_rotr 16 r) (16 + j)"
      by (auto dest!: bit_imp_le_length)
    with False show ?thesis by (simp add: bit_simps)
  qed
qed

lemma word_rotr_mod32: "word_rotr (k mod 32) w = word_rotr k w" for w :: u32
  by (rule bit_word_eqI) (simp add: bit_simps mod_simps)

lemma word_rotl_mod32: "word_rotl (k mod 32) w = word_rotl k w" for w :: u32
  by (rule bit_word_eqI) (simp add: bit_simps mod_simps)


section \<open>The masked reading against the reference\<close>

lemma mix_mod:
  "mix addend v i =
     (let d = ucast (drop_bit (8 * i) v) :: u8;
          b = addend d i;
          m = (if bit d 0 then word_rotr (8 * i mod 32) (word_rotl 3 b)
               else word_rotl (5 * i mod 32) (word_rotr 3 b))
      in m XOR drop_bit (11 * i mod 32) m XOR push_bit (3 * i mod 32) m)"
  by (simp add: mix_def Let_def word_rotr_mod32 word_rotl_mod32)

lemma and_1_bit_0: "d AND 1 \<noteq> 0 \<longleftrightarrow> bit d 0" for d :: u8
  by (simp add: and_one_eq bit_0 mod_2_eq_odd)

lemma less_8_cases: "i < 8 \<Longrightarrow> i \<in> {0, 1, 2, 3, 4, 5, 6, 7}" for i :: nat
  by auto

lemma hash_step_Masked:
  assumes "i < 8"
  shows "hash_step Masked v (of_nat i) r = Inr (r XOR mix addend32 v i)"
  using less_8_cases [OF assms]
  by (auto simp: hash_step_def bytes_def rotateLeft_Masked rotateRight_Masked shl_def shr_def
      mix_mod addend32_def and_1_bit_0 Let_def)

lemma hash_loop_Masked:
  "i \<le> 8 \<Longrightarrow>
   hash_loop Masked v (of_nat i) r = Inr (fold (\<lambda>i acc. acc XOR mix addend32 v i) [i..<8] r)"
proof (induction "8 - i" arbitrary: i r)
  case 0
  then have "i = 8" by simp
  then show ?case by (simp add: hash_loop.simps)
next
  case (Suc n)
  then have i: "i < 8" by simp
  then have lt: "(of_nat i :: u32) < 8"
    by (simp add: word_less_nat_alt unat_of_nat)
  from Suc.hyps(2) i have "n = 8 - Suc i" "Suc i \<le> 8" by simp_all
  then have "hash_loop Masked v (of_nat (Suc i)) r' =
      Inr (fold (\<lambda>i acc. acc XOR mix addend32 v i) [Suc i..<8] r')" for r'
    by (rule Suc.hyps(1))
  with i lt show ?case
    by (subst hash_loop.simps) (simp add: hash_step_Masked upt_conv_Cons add.commute)
qed

text \<open>The hash function under both readings of the shifts.\<close>

lemma hashFunction_eq:
  "hashFunction sem v = (case sem of ISO_C \<Rightarrow> Inl UndefinedShift | Masked \<Rightarrow> Inr (hash_ref v))"
proof (cases sem)
  case ISO_C
  then show ?thesis
    by (simp add: hashFunction_def hash_loop.simps [of _ _ 0] hash_step_0_ISO_C)
next
  case Masked
  with hash_loop_Masked [of 0 v 0] show ?thesis
    by (simp add: hashFunction_def rotateRight_Masked hash_gen_def HASH_SALT_def Let_def)
qed

text \<open>
  \<^bold>\<open>C4\<close> Under the masked reading \<open>hashFunction\<close> returns for every key, and its
  result is the reference hash: the loop of the source over the eight bytes, with its shifts
  by \<open>i*8\<close>, \<open>i*5\<close>, \<open>i*11\<close> and \<open>i*3\<close> taken modulo 32, computes the fold of
  \<open>mix\<close> over the byte indices 0 to 7, plus the salt, xor-ed with its rotation by 16.
\<close>

theorem hashFunction_Masked: "hashFunction Masked v = Inr (hash_ref v)"
  by (simp add: hashFunction_eq)

text \<open>
  \<^bold>\<open>C14\<close> Under ISO C every call of \<open>hashFunction\<close> is undefined behaviour, whatever
  the key: the first iteration of the loop (\<open>i = 0\<close>) rotates by the amount
  \<open>i*8 = 0\<close> or \<open>i*5 = 0\<close>, and a rotation by 0 shifts by the full width 32.
\<close>

theorem hashFunction_ISO_C: "hashFunction ISO_C v = Inl UndefinedShift"
  by (simp add: hashFunction_eq)


section \<open>Consequences\<close>

text \<open>
  \<^bold>\<open>C33\<close> The final step \<open>result ^ rotateRight(result, 16)\<close> makes the upper and the
  lower half of every hash equal: the 32-bit result of \<open>hashFunction\<close> carries 16 bits of
  information, and masking it with \<open>0xFFFF\<close> loses nothing.
\<close>

theorem hashFunction_halves:
  "\<exists>h. hashFunction Masked v = Inr h \<and> drop_bit 16 h = take_bit 16 h"
proof -
  have "drop_bit 16 (hash_ref v) = take_bit 16 (hash_ref v)"
    unfolding hash_gen_def Let_def by (rule xor_rotr16_halves)
  then show ?thesis by (simp add: hashFunction_eq)
qed

text \<open>
  \<^bold>\<open>C34\<close> The two helpers are inverse to each other: under the masked reading,
  rotating a word left and then right by the same amount gives the word back, for every
  amount.
\<close>

theorem rotate_roundtrip:
  "bindE (rotateLeft Masked n a) (\<lambda>r. rotateRight Masked r a) = Inr n"
  by (simp add: rotateLeft_Masked rotateRight_Masked)

text \<open>
  \<^bold>\<open>C35\<close> Under ISO C the two helpers are defined for the amounts 1 to 31 and for no
  other: the amount 0, which the hash function passes in its first iteration, is not
  among them.
\<close>

theorem rotate_defined_iff:
  "is_ok (rotateLeft ISO_C n a) = (0 < a \<and> a < 32) \<and>
   is_ok (rotateRight ISO_C n a) = (0 < a \<and> a < 32)"
  by (simp add: rotateLeft_ISO_C rotateRight_ISO_C)

subsection \<open>The width of \<open>data[i] + i\<close>\<close>

text \<open>
  The source adds the counter to the promoted byte in 32 bits; the specification asks
  for an addition that wraps at 8 bits. The two agree on a key unless one of its bytes
  is within \<open>i\<close> of 255.
\<close>

definition no_byte_carry :: "double \<Rightarrow> bool" where
  "no_byte_carry v = list_all (\<lambda>i. unat (ucast (drop_bit (8 * i) v) :: u8) + i < 256) [0..<8]"

lemma addend8_eq_addend32: "unat d + i < 256 \<Longrightarrow> addend8 d i = addend32 d i"
  by (simp add: addend8_def addend32_def word_unat_eq_iff unat_word_ariths unat_of_nat
      unsigned_ucast_eq take_bit_eq_mod)

lemma mix_addend8:
  "no_byte_carry v \<Longrightarrow> i < 8 \<Longrightarrow> mix addend8 v i = mix addend32 v i"
  by (simp add: no_byte_carry_def list_all_iff mix_def addend8_eq_addend32)

text \<open>
  \<^bold>\<open>C32\<close> On every key none of whose bytes \<open>data[i]\<close> exceeds \<open>255 - i\<close>, the hash
  the source computes (masked reading) is the hash the specification describes, with its
  8-bit addition.
\<close>

theorem hashFunction_spec_agree:
  assumes "no_byte_carry v"
  shows "hashFunction Masked v = Inr (hash_spec v)"
proof -
  have "fold (\<lambda>i acc. acc XOR mix addend8 v i) [0..<8] 0
      = fold (\<lambda>i acc. acc XOR mix addend32 v i) [0..<8] 0"
    by (rule fold_cong) (simp_all add: mix_addend8 [OF assms])
  then show ?thesis
    by (simp add: hashFunction_eq hash_gen_def)
qed

theorem hashFunction_spec_agree_witness:
  "no_byte_carry 0x40091EB851EB851F \<and>
   hashFunction Masked 0x40091EB851EB851F = Inr (hash_spec 0x40091EB851EB851F)"
proof -
  have h: "no_byte_carry 0x40091EB851EB851F"
    by code_simp
  show ?thesis using h hashFunction_spec_agree [OF h] by simp
qed

subsection \<open>Where the loop body and the specification agree\<close>

text \<open>The contribution of one byte to the hash, as a function of the byte.\<close>

definition mix_byte :: "(u8 \<Rightarrow> nat \<Rightarrow> u32) \<Rightarrow> u8 \<Rightarrow> nat \<Rightarrow> u32" where
  "mix_byte addend d i =
     (let b = addend d i;
          m = (if bit d 0 then word_rotr (8 * i) (word_rotl 3 b)
               else word_rotl (5 * i) (word_rotr 3 b))
      in m XOR drop_bit (11 * i mod 32) m XOR push_bit (3 * i mod 32) m)"

lemma mix_mix_byte: "mix addend v i = mix_byte addend (ucast (drop_bit (8 * i) v)) i"
  by (simp add: mix_def mix_byte_def Let_def)

text \<open>The bytes and positions at which \<open>data[i] + i\<close> exceeds 255.\<close>

definition carries :: "(u8 \<times> nat) list" where
  "carries = concat (map (\<lambda>i. map (\<lambda>d. (of_nat d, i)) [256 - i..<256]) [1..<8])"

lemma carries_differ:
  "list_all (\<lambda>(d, i). mix_byte addend8 d i \<noteq> mix_byte addend32 d i) carries"
  by code_simp

lemma carry_in_carries:
  fixes d :: u8
  assumes "i < 8" "256 \<le> unat d + i"
  shows "(d, i) \<in> set carries"
proof -
  have "unat d < 256"
    using unsigned_less [of d] by simp
  with assms have "1 \<le> i" "256 - i \<le> unat d"
    by simp_all
  moreover have "d = of_nat (unat d)"
    by simp
  ultimately show ?thesis
    using assms(1) \<open>unat d < 256\<close> unfolding carries_def
    by (auto simp: image_iff intro!: bexI [of _ i] bexI [of _ "unat d"])
qed

lemma mix_carry:
  assumes "i < 8" "256 \<le> unat (ucast (drop_bit (8 * i) v) :: u8) + i"
  shows "mix addend8 v i \<noteq> mix addend32 v i"
  using carries_differ carry_in_carries [OF assms]
  by (auto simp: list_all_iff mix_mix_byte)

lemma xor_left_cancel: "r XOR a = r XOR b \<longleftrightarrow> a = b" for r a b :: "'a::len word"
proof
  assume "r XOR a = r XOR b"
  then have "r XOR (r XOR a) = r XOR (r XOR b)"
    by simp
  then show "a = b"
    by (simp add: xor.assoc [symmetric])
qed simp

text \<open>
  \<^bold>\<open>C31\<close> One iteration of the loop of \<open>hashFunction\<close> computes what the
  specification describes for it exactly when \<open>data[i] + i\<close> does not exceed 255: the
  source adds in 32 bits and keeps the carry, the specification adds in 8 bits and drops
  it, and the carry always shows in the result of the iteration.
\<close>

theorem hash_step_spec_iff:
  assumes "i < 8"
  shows "hash_step Masked v (of_nat i) r = Inr (r XOR mix addend8 v i) \<longleftrightarrow>
         unat (ucast (drop_bit (8 * i) v) :: u8) + i < 256"
proof (cases "unat (ucast (drop_bit (8 * i) v) :: u8) + i < 256")
  case True
  then have "mix addend8 v i = mix addend32 v i"
    by (simp add: mix_def addend8_eq_addend32)
  with True assms show ?thesis
    by (simp add: hash_step_Masked)
next
  case False
  with assms have "mix addend8 v i \<noteq> mix addend32 v i"
    by (intro mix_carry) simp_all
  with False assms show ?thesis
    by (simp add: hash_step_Masked xor_left_cancel)
qed

theorem hash_step_spec_iff_witness:
  "hash_step Masked 0xFF00 (of_nat 1) 0 \<noteq> Inr (0 XOR mix addend8 0xFF00 1) \<and>
   hash_step Masked 0xFE00 (of_nat 1) 0 = Inr (0 XOR mix addend8 0xFE00 1)"
proof -
  have "\<not> unat (ucast (drop_bit (8 * 1) (0xFF00 :: double)) :: u8) + 1 < 256"
    "unat (ucast (drop_bit (8 * 1) (0xFE00 :: double)) :: u8) + 1 < 256"
    by code_simp+
  with hash_step_spec_iff [of 1 "0xFF00" 0] hash_step_spec_iff [of 1 "0xFE00" 0] show ?thesis
    by simp
qed


text \<open>
  An example of the two hashes differing: the key with bit pattern \<open>0xFF00\<close>. Its
  byte 1 is 255, the source adds the counter in 32 bits and gets 256, the 8-bit
  addition of the specification wraps to 0.
\<close>

lemma hash_differs_at_0xFF00:
  "hashFunction Masked 0xFF00 = Inr 0xA629A629 \<and> hash_spec 0xFF00 = 0xA651A651"
proof
  show "hashFunction Masked 0xFF00 = Inr 0xA629A629"
    by (simp add: hash_loop.simps hash_defs)
  show "hash_spec 0xFF00 = 0xA651A651"
    by code_simp
qed

end
