(* ===== verification/Heap.thy ===== *)
theory Heap
  imports Double
begin

text \<open>
  The part of the C library the source calls (\<open>calloc\<close>, \<open>realloc\<close>, \<open>free\<close>)
  and the memory the item arrays of the buckets live in. The heap is a store
  from addresses to blocks. A block has the size in bytes it was requested
  with and the 8-byte slots that fit into it; the source only ever reads and
  writes \<open>double\<close> fields at offsets that are multiples of 8, so a slot holds
  a \<open>double\<close> or nothing yet (\<open>None\<close>: memory whose value is indeterminate).
  Addresses are never reused, so a pointer to a released block stays
  recognisable as dangling. The allocator has a budget of bytes (\<open>avail\<close>);
  a request beyond it returns the null pointer.
\<close>

section \<open>Blocks and the heap\<close>

type_synonym addr = nat
type_synonym ptr = "addr option" \<comment> \<open>\<open>None\<close> is \<open>NULL\<close>\<close>

record block =
  bsize :: nat
  cells :: "double option list"

record heap =
  blocks :: "addr \<rightharpoonup> block"
  next_addr :: addr
  avail :: nat

definition empty_heap :: "nat \<Rightarrow> heap" where
  "empty_heap n = \<lparr>blocks = Map.empty, next_addr = 0, avail = n\<rparr>"

lemma empty_heap_sel [simp]:
  "blocks (empty_heap n) = Map.empty" "next_addr (empty_heap n) = 0" "avail (empty_heap n) = n"
  by (simp_all add: empty_heap_def)

section \<open>Allocation\<close>

text \<open>
  A new block of \<open>n\<close> bytes whose slots all hold \<open>fill\<close>, at a fresh address;
  the null pointer and an unchanged heap when the budget does not cover it.
\<close>

definition alloc :: "heap \<Rightarrow> nat \<Rightarrow> double option \<Rightarrow> heap \<times> ptr" where
  "alloc h n fill =
     (if n \<le> avail h
      then (h\<lparr>blocks := (blocks h)(next_addr h \<mapsto> \<lparr>bsize = n, cells = replicate (n div 8) fill\<rparr>),
              next_addr := Suc (next_addr h),
              avail := avail h - n\<rparr>,
            Some (next_addr h))
      else (h, None))"

text \<open>\<open>calloc(nmemb, size)\<close>: zero-filled memory; all bits zero is the \<open>double\<close> \<open>+0.0\<close>.\<close>

definition calloc :: "heap \<Rightarrow> nat \<Rightarrow> nat \<Rightarrow> heap \<times> ptr" where
  "calloc h nmemb sz = alloc h (nmemb * sz) (Some 0)"

text \<open>
  \<open>realloc(p, n)\<close>: for the null pointer an allocation of indeterminate
  memory; for a released block undefined behaviour; otherwise, if the budget
  allows, a block of \<open>n\<close> bytes at a new address that keeps the old contents
  up to the smaller of the two sizes, the old block being released; if not,
  the null pointer, with the old block untouched.
\<close>

definition realloc :: "heap \<Rightarrow> ptr \<Rightarrow> nat \<Rightarrow> (heap \<times> ptr) result" where
  "realloc h p n =
     (case p of
        None \<Rightarrow> Inr (alloc h n None)
      | Some a \<Rightarrow>
          (case blocks h a of
             None \<Rightarrow> Inl UseAfterFree
           | Some b \<Rightarrow>
               if n \<le> avail h + bsize b
               then Inr (h\<lparr>blocks := (blocks h)
                              (a := None,
                               next_addr h \<mapsto>
                                 \<lparr>bsize = n,
                                  cells = take (n div 8) (cells b)
                                          @ replicate (n div 8 - length (cells b)) None\<rparr>),
                            next_addr := Suc (next_addr h),
                            avail := avail h + bsize b - n\<rparr>,
                         Some (next_addr h))
               else Inr (h, None)))"

text \<open>\<open>free(p)\<close>: nothing for the null pointer, undefined for a block that is not allocated.\<close>

definition free :: "heap \<Rightarrow> ptr \<Rightarrow> heap result" where
  "free h p =
     (case p of
        None \<Rightarrow> Inr h
      | Some a \<Rightarrow>
          (case blocks h a of
             None \<Rightarrow> Inl DoubleFree
           | Some b \<Rightarrow> Inr (h\<lparr>blocks := (blocks h)(a := None), avail := avail h + bsize b\<rparr>)))"

section \<open>Access to slots\<close>

text \<open>Reading and writing the \<open>double\<close> at slot \<open>i\<close> (byte offset \<open>8 * i\<close>) of the block at \<open>p\<close>.\<close>

definition load :: "heap \<Rightarrow> ptr \<Rightarrow> nat \<Rightarrow> double result" where
  "load h p i =
     (case p of
        None \<Rightarrow> Inl NullDeref
      | Some a \<Rightarrow>
          (case blocks h a of
             None \<Rightarrow> Inl UseAfterFree
           | Some b \<Rightarrow>
               if i < length (cells b)
               then (case cells b ! i of None \<Rightarrow> Inl UninitRead | Some v \<Rightarrow> Inr v)
               else Inl OutOfBounds))"

definition store :: "heap \<Rightarrow> ptr \<Rightarrow> nat \<Rightarrow> double \<Rightarrow> heap result" where
  "store h p i v =
     (case p of
        None \<Rightarrow> Inl NullDeref
      | Some a \<Rightarrow>
          (case blocks h a of
             None \<Rightarrow> Inl UseAfterFree
           | Some b \<Rightarrow>
               if i < length (cells b)
               then Inr (h\<lparr>blocks := (blocks h)(a \<mapsto> b\<lparr>cells := (cells b)[i := Some v]\<rparr>)\<rparr>)
               else Inl OutOfBounds))"

lemmas heap_op_defs [heap_defs] =
  alloc_def calloc_def realloc_def free_def load_def store_def

section \<open>Characteristic equations\<close>

lemma load_Null [simp]: "load h None i = Inl NullDeref"
  by (simp add: load_def)

lemma store_Null [simp]: "store h None i v = Inl NullDeref"
  by (simp add: store_def)

lemma load_dangling [simp]: "blocks h a = None \<Longrightarrow> load h (Some a) i = Inl UseAfterFree"
  by (simp add: load_def)

lemma store_dangling [simp]: "blocks h a = None \<Longrightarrow> store h (Some a) i v = Inl UseAfterFree"
  by (simp add: store_def)

lemma free_dangling [simp]: "blocks h a = None \<Longrightarrow> free h (Some a) = Inl DoubleFree"
  by (simp add: free_def)

lemma load_live:
  "blocks h a = Some b \<Longrightarrow>
   load h (Some a) i =
     (if i < length (cells b)
      then (case cells b ! i of None \<Rightarrow> Inl UninitRead | Some v \<Rightarrow> Inr v)
      else Inl OutOfBounds)"
  by (simp add: load_def)

lemma store_live:
  "blocks h a = Some b \<Longrightarrow>
   store h (Some a) i v =
     (if i < length (cells b)
      then Inr (h\<lparr>blocks := (blocks h)(a \<mapsto> b\<lparr>cells := (cells b)[i := Some v]\<rparr>)\<rparr>)
      else Inl OutOfBounds)"
  by (simp add: store_def)

lemma free_live:
  "blocks h a = Some b \<Longrightarrow>
   free h (Some a) = Inr (h\<lparr>blocks := (blocks h)(a := None), avail := avail h + bsize b\<rparr>)"
  by (simp add: free_def)

lemma store_eq_Inr_iff:
  "store h p i v = Inr h' \<longleftrightarrow>
     (\<exists>a b. p = Some a \<and> blocks h a = Some b \<and> i < length (cells b) \<and>
            h' = h\<lparr>blocks := (blocks h)(a \<mapsto> b\<lparr>cells := (cells b)[i := Some v]\<rparr>)\<rparr>)"
  by (auto simp: store_def split: option.splits)

lemma load_eq_Inr_iff:
  "load h p i = Inr v \<longleftrightarrow>
     (\<exists>a b. p = Some a \<and> blocks h a = Some b \<and> i < length (cells b) \<and> cells b ! i = Some v)"
  by (auto simp: load_def split: option.splits)

section \<open>Reading after writing\<close>

lemma load_store_same:
  "store h p i v = Inr h' \<Longrightarrow> load h' p i = Inr v"
  by (auto simp: store_eq_Inr_iff load_def)

lemma load_store_other_slot:
  "store h p i v = Inr h' \<Longrightarrow> j \<noteq> i \<Longrightarrow> load h' p j = load h p j"
  by (auto simp: store_eq_Inr_iff load_def)

lemma load_store_other_block:
  "store h p i v = Inr h' \<Longrightarrow> q \<noteq> p \<Longrightarrow> load h' q j = load h q j"
  by (cases q) (auto simp: store_eq_Inr_iff load_def split: if_splits)

lemma store_frame:
  assumes "store h p i v = Inr h'"
  shows "next_addr h' = next_addr h" "avail h' = avail h"
    "\<And>a. Some a \<noteq> p \<Longrightarrow> blocks h' a = blocks h a"
    "\<And>a. blocks h' a = None \<longleftrightarrow> blocks h a = None"
  using assms by (auto simp: store_eq_Inr_iff split: if_splits)

section \<open>Fresh addresses\<close>

text \<open>Every allocated address lies below the next one to be handed out.\<close>

definition heap_ok :: "heap \<Rightarrow> bool" where
  "heap_ok h \<longleftrightarrow> (\<forall>a. a \<ge> next_addr h \<longrightarrow> blocks h a = None)"

lemma heap_ok_empty [simp]: "heap_ok (empty_heap n)"
  by (simp add: heap_ok_def empty_heap_def)

lemma heap_ok_fresh: "heap_ok h \<Longrightarrow> blocks h (next_addr h) = None"
  by (simp add: heap_ok_def)

lemma heap_ok_alloc: "heap_ok h \<Longrightarrow> heap_ok (fst (alloc h n fill))"
  by (simp add: heap_ok_def alloc_def)

lemma heap_ok_store: "heap_ok h \<Longrightarrow> store h p i v = Inr h' \<Longrightarrow> heap_ok h'"
  by (auto simp: heap_ok_def store_eq_Inr_iff)

lemma heap_ok_free: "heap_ok h \<Longrightarrow> free h p = Inr h' \<Longrightarrow> heap_ok h'"
  by (auto simp: heap_ok_def free_def split: option.splits)

lemma heap_ok_realloc: "heap_ok h \<Longrightarrow> realloc h p n = Inr (h', q) \<Longrightarrow> heap_ok h'"
  by (auto simp: heap_ok_def realloc_def alloc_def split: option.splits if_splits)

end
