(* ===== verification/Bucket.thy ===== *)
theory Bucket
  imports Heap
begin

text \<open>
  One bucket of the table: the struct \<open>bucket_t\<close>, the layout of its item
  array in memory, and the three scans over the items that \<open>hashmapRead\<close>,
  \<open>hashmapDelete\<close> and \<open>hashmapWrite\<close> make, together with the pieces of
  \<open>hashmapWrite\<close> that allocate, grow and append. The scans are the \<open>for\<close>
  loops of the source, as recursive functions on the loop counter.
\<close>

section \<open>Data\<close>

text \<open>
  \<open>bucket_t\<close>. The field \<open>length\<close> of the source is \<open>blength\<close> here, since
  \<open>length\<close> is the length of lists.
\<close>

record bucket_t =
  items :: ptr
  blength :: u32
  itemCount :: u32

text \<open>
  \<open>bucketItem_t\<close> is two \<open>double\<close> fields, 16 bytes: \<open>items[i].key\<close> is slot
  \<open>2 * i\<close> of the block and \<open>items[i].value\<close> is slot \<open>2 * i + 1\<close>.
\<close>

definition sizeof_bucketItem_t :: nat where
  "sizeof_bucketItem_t = 16"

definition item_key :: "u32 \<Rightarrow> nat" where
  "item_key i = 2 * unat i"

definition item_value :: "u32 \<Rightarrow> nat" where
  "item_value i = 2 * unat i + 1"

definition HASHMAP_BUCKET_INITSIZE :: u32 where
  "HASHMAP_BUCKET_INITSIZE = 8"

section \<open>The scan of \<open>hashmapRead\<close>\<close>

function read_loop :: "heap \<Rightarrow> bucket_t \<Rightarrow> double \<Rightarrow> u32 \<Rightarrow> double result" where
  "read_loop h bucket key i =
     (if i < itemCount bucket
      then bindE (load h (items bucket) (item_key i)) (\<lambda>k.
             if double_eq k key then load h (items bucket) (item_value i)
             else read_loop h bucket key (i + 1))
      else Inr key)"
  by pat_completeness auto
termination
  by (relation "measure (\<lambda>(h, bucket, key, i). unat (itemCount bucket) - unat i)")
    (auto intro: loop_measure_less)

declare read_loop.simps [simp del]

text \<open>The body of \<open>hashmapRead\<close> once the bucket is selected.\<close>

definition bucket_read :: "heap \<Rightarrow> bucket_t \<Rightarrow> double \<Rightarrow> double result" where
  "bucket_read h bucket key =
     (if items bucket = None then Inr key else read_loop h bucket key 0)"

section \<open>The scan of \<open>hashmapDelete\<close>\<close>

text \<open>
  The body of the \<open>if\<close> inside the loop: the count is decremented first; if
  it reaches zero the item array is released (and the pointer kept), otherwise
  the item at the new count, the last one, is copied over item \<open>i\<close>, key
  first.
\<close>

definition delete_at :: "heap \<Rightarrow> bucket_t \<Rightarrow> u32 \<Rightarrow> (heap \<times> bucket_t) result" where
  "delete_at h bucket i =
     (let bucket = bucket\<lparr>itemCount := itemCount bucket - 1\<rparr> in
      if itemCount bucket = 0
      then bindE (free h (items bucket)) (\<lambda>h. Inr (h, bucket))
      else bindE (load h (items bucket) (item_key (itemCount bucket))) (\<lambda>k.
           bindE (store h (items bucket) (item_key i) k) (\<lambda>h.
           bindE (load h (items bucket) (item_value (itemCount bucket))) (\<lambda>v.
           bindE (store h (items bucket) (item_value i) v) (\<lambda>h.
           Inr (h, bucket))))))"

lemma delete_at_itemCount:
  "delete_at h bucket i = Inr (h', bucket') \<Longrightarrow> itemCount bucket' = itemCount bucket - 1"
  by (auto simp: delete_at_def Let_def bindE_eq_Inr_iff split: if_splits)

text \<open>The loop goes on after a match, with the counter incremented and the count as updated.\<close>

function delete_loop :: "heap \<Rightarrow> bucket_t \<Rightarrow> double \<Rightarrow> u32 \<Rightarrow> (heap \<times> bucket_t) result" where
  "delete_loop h bucket key i =
     (if i < itemCount bucket
      then bindE (load h (items bucket) (item_key i)) (\<lambda>k.
             if double_eq k key
             then bindE (delete_at h bucket i) (\<lambda>(h', bucket'). delete_loop h' bucket' key (i + 1))
             else delete_loop h bucket key (i + 1))
      else Inr (h, bucket))"
  by pat_completeness auto
termination
proof (relation "measure (\<lambda>(h, bucket, key, i). unat (itemCount bucket) - unat i)", goal_cases)
  case 1
  show ?case by simp
next
  case (2 h bucket key i k x h' bucket')
  then have "delete_at h bucket i = Inr (h', bucket')"
    by simp
  then have "itemCount bucket' = itemCount bucket - 1"
    by (rule delete_at_itemCount)
  moreover from 2 have "itemCount bucket - 1 \<le> itemCount bucket"
    by unat_arith
  ultimately show ?case
    using 2 by (auto intro: loop_measure_less)
next
  case 3
  then show ?case by (auto intro: loop_measure_less)
qed

declare delete_loop.simps [simp del]

text \<open>The body of \<open>hashmapDelete\<close> once the bucket is selected.\<close>

definition bucket_delete :: "heap \<Rightarrow> bucket_t \<Rightarrow> double \<Rightarrow> (heap \<times> bucket_t) result" where
  "bucket_delete h bucket key =
     (if items bucket = None then Inr (h, bucket) else delete_loop h bucket key 0)"

section \<open>The scan of \<open>hashmapWrite\<close> and its tail\<close>

text \<open>
  The scan either finds the key, overwrites its value and makes the function
  return, or ends with the counter at the item count.
\<close>

datatype scan = Overwritten heap | NotFound u32

function write_scan :: "heap \<Rightarrow> bucket_t \<Rightarrow> double \<Rightarrow> double \<Rightarrow> u32 \<Rightarrow> scan result" where
  "write_scan h bucket key val i =
     (if i < itemCount bucket
      then bindE (load h (items bucket) (item_key i)) (\<lambda>k.
             if double_eq k key
             then bindE (store h (items bucket) (item_value i) val) (\<lambda>h. Inr (Overwritten h))
             else write_scan h bucket key val (i + 1))
      else Inr (NotFound i))"
  by pat_completeness auto
termination
  by (relation "measure (\<lambda>(h, bucket, key, val, i). unat (itemCount bucket) - unat i)")
    (auto intro: loop_measure_less)

declare write_scan.simps [simp del]

text \<open>Allocation of the item array of a bucket that has none.\<close>

definition bucket_init :: "heap \<Rightarrow> bucket_t \<Rightarrow> heap \<times> bucket_t" where
  "bucket_init h bucket =
     (if items bucket = None
      then (let (h, p) = calloc h (unat HASHMAP_BUCKET_INITSIZE) sizeof_bucketItem_t
            in (h, bucket\<lparr>items := p, blength := HASHMAP_BUCKET_INITSIZE\<rparr>))
      else (h, bucket))"

text \<open>
  Growth of a full bucket: the new size passed to \<open>realloc\<close> is \<open>length * 2\<close>,
  a number of bytes, computed in 32 bits.
\<close>

definition bucket_grow :: "heap \<Rightarrow> bucket_t \<Rightarrow> (heap \<times> bucket_t) result" where
  "bucket_grow h bucket =
     (if itemCount bucket = blength bucket
      then bindE (realloc h (items bucket) (unat (blength bucket * 2))) (\<lambda>(h, p).
           Inr (h, bucket\<lparr>items := p, blength := blength bucket * 2\<rparr>))
      else Inr (h, bucket))"

text \<open>The new item is placed at the index the scan ended with.\<close>

definition bucket_append ::
  "heap \<Rightarrow> bucket_t \<Rightarrow> u32 \<Rightarrow> double \<Rightarrow> double \<Rightarrow> (heap \<times> bucket_t) result" where
  "bucket_append h bucket i key val =
     bindE (store h (items bucket) (item_key i) key) (\<lambda>h.
     bindE (store h (items bucket) (item_value i) val) (\<lambda>h.
     Inr (h, bucket\<lparr>itemCount := itemCount bucket + 1\<rparr>)))"

text \<open>The body of \<open>hashmapWrite\<close> once the bucket is selected, for a value that differs from the key.\<close>

definition bucket_write ::
  "heap \<Rightarrow> bucket_t \<Rightarrow> double \<Rightarrow> double \<Rightarrow> (heap \<times> bucket_t) result" where
  "bucket_write h bucket key val =
     (let (h, bucket) = bucket_init h bucket in
      bindE (write_scan h bucket key val 0) (\<lambda>r.
        case r of
          Overwritten h \<Rightarrow> Inr (h, bucket)
        | NotFound i \<Rightarrow>
            bindE (bucket_grow h bucket) (\<lambda>(h, bucket).
            bucket_append h bucket i key val)))"

lemmas bucket_defs [hm_defs] =
  bucket_read_def bucket_delete_def bucket_write_def
  delete_at_def bucket_init_def bucket_grow_def bucket_append_def
  item_key_def item_value_def sizeof_bucketItem_t_def HASHMAP_BUCKET_INITSIZE_def

end
