(* ===== verification/Hashmap.thy ===== *)
theory Hashmap
  imports Hash Bucket
begin

text \<open>
  The table: the struct \<open>hashmap_t\<close> and the four functions \<open>hashmapCreate\<close>,
  \<open>hashmapRead\<close>, \<open>hashmapDelete\<close> and \<open>hashmapWrite\<close>. The state the
  functions work on is the heap together with the table; a function that
  changes memory returns the new state, and every function returns \<open>Inl\<close> of
  an error where the C program would leave defined behaviour.
\<close>

section \<open>Data\<close>

text \<open>
  \<open>hashmap_t\<close>: the pointer to the array of buckets (\<open>None\<close> is the null
  pointer, what \<open>calloc\<close> returns when it fails) and the item count of the
  table. The count is \<open>hm_itemCount\<close> here, \<open>itemCount\<close> being the field of
  \<open>bucket_t\<close>.
\<close>

record hashmap_t =
  buckets :: "bucket_t list option"
  hm_itemCount :: u32

record state =
  mem :: heap
  tbl :: hashmap_t

definition HASHMAP_BUCKET_MASK :: u32 where
  "HASHMAP_BUCKET_MASK = 0xFFFF"

definition sizeof_hashmap_t :: nat where
  "sizeof_hashmap_t = 16"

definition sizeof_bucket_t :: nat where
  "sizeof_bucket_t = 16"

section \<open>Creation\<close>

text \<open>
  Two allocations, neither checked: if the first fails the assignment to
  \<open>hashmap->buckets\<close> writes through the null pointer; if the second fails the
  table is returned with a null bucket array. Zero-filled memory is a table
  with count 0 and buckets with null item pointer, length 0 and count 0. The
  two blocks are allocated in the heap, so that they use up budget and
  addresses; the contents of the table are kept in the record, not in the slots
  of these blocks.
\<close>

definition hashmapCreate :: "heap \<Rightarrow> state result" where
  "hashmapCreate h =
     (let (h, hashmap) = calloc h 1 sizeof_hashmap_t in
      if hashmap = None then Inl NullDeref
      else
        let (h, p) = calloc h (unat (HASHMAP_BUCKET_MASK + 1)) sizeof_bucket_t in
        Inr \<lparr>mem = h,
             tbl = \<lparr>buckets =
                      map_option
                        (\<lambda>a. replicate (unat (HASHMAP_BUCKET_MASK + 1))
                               \<lparr>items = None, blength = 0, itemCount = 0\<rparr>) p,
                    hm_itemCount = 0\<rparr>\<rparr>)"

section \<open>Selecting the bucket\<close>

text \<open>\<open>hashFunction(key) & HASHMAP_BUCKET_MASK\<close>\<close>

definition bucket_index :: "shift_sem \<Rightarrow> double \<Rightarrow> nat result" where
  "bucket_index sem key = bindE (hashFunction sem key) (\<lambda>h. Inr (unat (h AND HASHMAP_BUCKET_MASK)))"

text \<open>\<open>&(hashmap->buckets[hash])\<close>, read and written back\<close>

definition get_bucket :: "hashmap_t \<Rightarrow> nat \<Rightarrow> bucket_t result" where
  "get_bucket hm hash =
     (case buckets hm of
        None \<Rightarrow> Inl NullDeref
      | Some bs \<Rightarrow> if hash < length bs then Inr (bs ! hash) else Inl OutOfBounds)"

definition set_bucket :: "hashmap_t \<Rightarrow> nat \<Rightarrow> bucket_t \<Rightarrow> hashmap_t" where
  "set_bucket hm hash bucket = hm\<lparr>buckets := map_option (\<lambda>bs. bs[hash := bucket]) (buckets hm)\<rparr>"

section \<open>Operations\<close>

definition hashmapRead :: "shift_sem \<Rightarrow> state \<Rightarrow> double \<Rightarrow> double result" where
  "hashmapRead sem s key =
     bindE (bucket_index sem key) (\<lambda>hash.
     bindE (get_bucket (tbl s) hash) (\<lambda>bucket.
     bucket_read (mem s) bucket key))"

definition hashmapDelete :: "shift_sem \<Rightarrow> state \<Rightarrow> double \<Rightarrow> state result" where
  "hashmapDelete sem s key =
     bindE (bucket_index sem key) (\<lambda>hash.
     bindE (get_bucket (tbl s) hash) (\<lambda>bucket.
     bindE (bucket_delete (mem s) bucket key) (\<lambda>(h, bucket).
     Inr \<lparr>mem = h, tbl = set_bucket (tbl s) hash bucket\<rparr>)))"

definition hashmapWrite :: "shift_sem \<Rightarrow> state \<Rightarrow> double \<Rightarrow> double \<Rightarrow> state result" where
  "hashmapWrite sem s key val =
     (if double_eq key val then hashmapDelete sem s key
      else
        bindE (bucket_index sem key) (\<lambda>hash.
        bindE (get_bucket (tbl s) hash) (\<lambda>bucket.
        bindE (bucket_write (mem s) bucket key val) (\<lambda>(h, bucket).
        Inr \<lparr>mem = h, tbl = set_bucket (tbl s) hash bucket\<rparr>))))"

lemmas hashmap_defs [hm_defs] =
  hashmapCreate_def hashmapRead_def hashmapDelete_def hashmapWrite_def
  bucket_index_def get_bucket_def set_bucket_def
  HASHMAP_BUCKET_MASK_def sizeof_hashmap_t_def sizeof_bucket_t_def

section \<open>Sequences of operations\<close>

text \<open>
  A client of the table is a sequence of calls. \<open>run\<close> executes one from a
  state and collects what the reads return; it stops at the first call that
  is undefined.
\<close>

datatype op = Read double | Write double double | Delete double

fun step :: "shift_sem \<Rightarrow> state \<Rightarrow> op \<Rightarrow> (state \<times> double option) result" where
  "step sem s (Read k) = bindE (hashmapRead sem s k) (\<lambda>v. Inr (s, Some v))"
| "step sem s (Write k v) = bindE (hashmapWrite sem s k v) (\<lambda>s. Inr (s, None))"
| "step sem s (Delete k) = bindE (hashmapDelete sem s k) (\<lambda>s. Inr (s, None))"

fun run :: "shift_sem \<Rightarrow> state \<Rightarrow> op list \<Rightarrow> (state \<times> double list) result" where
  "run sem s [] = Inr (s, [])"
| "run sem s (c # cs) =
     bindE (step sem s c) (\<lambda>(s, out).
     bindE (run sem s cs) (\<lambda>(s, outs).
     Inr (s, (case out of None \<Rightarrow> outs | Some v \<Rightarrow> v # outs))))"

end
