(* ===== verification/Entries.thy ===== *)
theory Entries
  imports Double
begin

text \<open>
  What a bucket holds, seen as a list of (key, value) entries in the order of
  the item array, and what the three operations do to such a list. This is
  the specification the scans of \<open>Bucket\<close> are proved against; it knows
  nothing of pointers or memory. Keys are compared with \<open>double_eq\<close>, the
  comparison the source uses.
\<close>

section \<open>States of a bucket\<close>

type_synonym entry = "double \<times> double"

datatype bstate =
    Unallocated          \<comment> \<open>no item array yet\<close>
  | Live "entry list"    \<comment> \<open>an item array holding these entries, at least one\<close>
  | Freed                \<comment> \<open>the item array was released, the pointer kept\<close>

definition capacity :: nat where
  "capacity = 8"

section \<open>Searching\<close>

text \<open>The index of the first entry whose key equals \<open>key\<close>.\<close>

fun match_index :: "double \<Rightarrow> entry list \<Rightarrow> nat option" where
  "match_index key [] = None"
| "match_index key (e # es) =
     (if double_eq (fst e) key then Some 0 else map_option Suc (match_index key es))"

definition lookup :: "entry list \<Rightarrow> double \<Rightarrow> double" where
  "lookup es key = (case match_index key es of None \<Rightarrow> key | Some j \<Rightarrow> snd (es ! j))"

text \<open>No two entries have equal keys.\<close>

fun uniq_keys :: "entry list \<Rightarrow> bool" where
  "uniq_keys [] \<longleftrightarrow> True"
| "uniq_keys (e # es) \<longleftrightarrow> list_all (\<lambda>e'. \<not> double_eq (fst e) (fst e')) es \<and> uniq_keys es"

text \<open>Removal of the entry at \<open>j\<close> by moving the last entry into its place.\<close>

definition remove_at :: "entry list \<Rightarrow> nat \<Rightarrow> entry list" where
  "remove_at es j = butlast (es[j := last es])"

section \<open>The operations on a bucket\<close>

fun abs_read :: "bstate \<Rightarrow> double \<Rightarrow> double" where
  "abs_read (Live es) key = lookup es key"
| "abs_read _ key = key"

fun abs_delete :: "bstate \<Rightarrow> double \<Rightarrow> bstate" where
  "abs_delete (Live es) key =
     (case match_index key es of
        None \<Rightarrow> Live es
      | Some j \<Rightarrow> if length es = 1 then Freed else Live (remove_at es j))"
| "abs_delete st key = st"

text \<open>
  A write of a value that differs from the key. \<open>room\<close> says whether the
  allocator can provide a first item array.
\<close>

fun abs_write :: "bool \<Rightarrow> bstate \<Rightarrow> double \<Rightarrow> double \<Rightarrow> bstate result" where
  "abs_write room Unallocated key val = (if room then Inr (Live [(key, val)]) else Inl NullDeref)"
| "abs_write room Freed key val = Inl UseAfterFree"
| "abs_write room (Live es) key val =
     (case match_index key es of
        Some j \<Rightarrow> Inr (Live (es[j := (fst (es ! j), val)]))
      | None \<Rightarrow> if length es < capacity then Inr (Live (es @ [(key, val)])) else Inl OutOfBounds)"

text \<open>A sequence of writes to one bucket, with memory for a first item array.\<close>

fun abs_writes :: "bstate \<Rightarrow> entry list \<Rightarrow> bstate result" where
  "abs_writes st [] = Inr st"
| "abs_writes st (e # es) = bindE (abs_write True st (fst e) (snd e)) (\<lambda>st. abs_writes st es)"

text \<open>The entries of a state, and the states that can arise.\<close>

fun entries :: "bstate \<Rightarrow> entry list" where
  "entries (Live es) = es"
| "entries _ = []"

fun bstate_ok :: "bstate \<Rightarrow> bool" where
  "bstate_ok (Live es) \<longleftrightarrow> es \<noteq> [] \<and> length es \<le> capacity \<and> uniq_keys es"
| "bstate_ok _ \<longleftrightarrow> True"

section \<open>Facts about searching\<close>

lemma lookup_Nil [simp]: "lookup [] key = key"
  by (simp add: lookup_def)

lemma lookup_Cons [simp]:
  "lookup (e # es) key = (if double_eq (fst e) key then snd e else lookup es key)"
  by (auto simp: lookup_def split: option.splits)

lemma match_index_None_iff:
  "match_index key es = None \<longleftrightarrow> (\<forall>e \<in> set es. \<not> double_eq (fst e) key)"
  by (induction es) auto

lemma match_index_SomeD:
  "match_index key es = Some j \<Longrightarrow>
     j < length es \<and> double_eq (fst (es ! j)) key \<and> (\<forall>l < j. \<not> double_eq (fst (es ! l)) key)"
proof (induction es arbitrary: j)
  case Nil
  then show ?case by simp
next
  case (Cons e es)
  show ?case
  proof (cases "double_eq (fst e) key")
    case True
    with Cons.prems show ?thesis by simp
  next
    case False
    with Cons.prems obtain j' where j': "match_index key es = Some j'" "j = Suc j'"
      by auto
    from Cons.IH [OF j'(1)] False j'(2) show ?thesis
      by (auto simp: less_Suc_eq_0_disj)
  qed
qed

lemma match_index_nan [simp]: "is_nan key \<Longrightarrow> match_index key es = None"
  by (simp add: match_index_None_iff)

lemma lookup_miss: "\<forall>e \<in> set es. \<not> double_eq (fst e) key \<Longrightarrow> lookup es key = key"
  by (simp add: lookup_def match_index_None_iff [symmetric])

lemma uniq_keys_iff:
  "uniq_keys es \<longleftrightarrow>
     (\<forall>i < length es. \<forall>j < length es. i \<noteq> j \<longrightarrow> \<not> double_eq (fst (es ! i)) (fst (es ! j)))"
proof (induction es)
  case Nil
  then show ?case by simp
next
  case (Cons e es)
  have "(\<forall>i < length (e # es). \<forall>j < length (e # es). i \<noteq> j \<longrightarrow>
            \<not> double_eq (fst ((e # es) ! i)) (fst ((e # es) ! j))) \<longleftrightarrow>
        (\<forall>j < length es. \<not> double_eq (fst e) (fst (es ! j))) \<and>
        (\<forall>i < length es. \<forall>j < length es. i \<noteq> j \<longrightarrow> \<not> double_eq (fst (es ! i)) (fst (es ! j)))"
    (is "?L \<longleftrightarrow> ?A \<and> ?B")
  proof
    assume L: ?L
    have ?A
    proof (intro allI impI)
      fix j assume "j < length es"
      with L [rule_format, of 0 "Suc j"] show "\<not> double_eq (fst e) (fst (es ! j))" by simp
    qed
    moreover have ?B
    proof (intro allI impI)
      fix i j assume "i < length es" "j < length es" "i \<noteq> j"
      with L [rule_format, of "Suc i" "Suc j"] show "\<not> double_eq (fst (es ! i)) (fst (es ! j))"
        by simp
    qed
    ultimately show "?A \<and> ?B" ..
  next
    assume AB: "?A \<and> ?B"
    show ?L
    proof (intro allI impI)
      fix i j assume "i < length (e # es)" "j < length (e # es)" "i \<noteq> j"
      with AB show "\<not> double_eq (fst ((e # es) ! i)) (fst ((e # es) ! j))"
        by (cases i; cases j) (auto simp: double_eq_sym [of _ "fst e"])
    qed
  qed
  with Cons.IH show ?case
    by (simp add: list_all_length)
qed

lemma lookup_hit:
  assumes "uniq_keys es" "i < length es" "double_eq (fst (es ! i)) key"
  shows "match_index key es = Some i" "lookup es key = snd (es ! i)"
proof -
  from assms(2,3) have "match_index key es \<noteq> None"
    by (auto simp: match_index_None_iff)
  then obtain j where j: "match_index key es = Some j" by auto
  note jD = match_index_SomeD [OF j]
  have "j = i"
  proof (rule ccontr)
    assume "j \<noteq> i"
    moreover from jD assms(3) have "double_eq (fst (es ! j)) (fst (es ! i))"
      by (blast intro: double_eq_same_right)
    ultimately show False
      using assms(1,2) jD by (auto simp: uniq_keys_iff)
  qed
  with j show "match_index key es = Some i" "lookup es key = snd (es ! i)"
    by (simp_all add: lookup_def)
qed


section \<open>Facts about removal\<close>

lemma last_nth: "j < length es \<Longrightarrow> last es = es ! (length es - 1)"
  by (cases es) (simp_all add: last_conv_nth)

lemma remove_at_Nil_iff [simp]: "remove_at es j = [] \<longleftrightarrow> length es \<le> 1"
  unfolding length_0_conv [symmetric] by (auto simp: remove_at_def)

lemma length_remove_at [simp]: "length (remove_at es j) = length es - 1"
  by (simp add: remove_at_def)

lemma nth_remove_at:
  "j < length es \<Longrightarrow> l < length es - 1 \<Longrightarrow>
     remove_at es j ! l = (if l = j then last es else es ! l)"
  by (simp add: remove_at_def nth_butlast nth_list_update)

lemma remove_at_last: "es \<noteq> [] \<Longrightarrow> remove_at es (length es - 1) = butlast es"
  by (simp add: remove_at_def last_conv_nth)

lemma nth_remove_at_old:
  assumes "j < length es" "l < length es - 1"
  obtains m where "m < length es" "m \<noteq> j" "remove_at es j ! l = es ! m"
proof (cases "l = j")
  case True
  with assms have "remove_at es j ! l = es ! (length es - 1)" "length es - 1 \<noteq> j"
    by (simp_all add: nth_remove_at last_nth)
  with assms show ?thesis by (intro that [of "length es - 1"]) simp_all
next
  case False
  with assms show ?thesis by (intro that [of l]) (simp_all add: nth_remove_at)
qed

lemma nth_remove_at_kept:
  assumes "j < length es" "m < length es" "m \<noteq> j"
  obtains l where "l < length es - 1" "remove_at es j ! l = es ! m"
proof (cases "m = length es - 1")
  case True
  with assms show ?thesis
    by (intro that [of j]) (simp_all add: nth_remove_at last_nth)
next
  case False
  with assms show ?thesis
    by (intro that [of m]) (simp_all add: nth_remove_at)
qed

section \<open>The operations keep keys unique\<close>

lemma uniq_keys_remove_at:
  assumes "uniq_keys es" "j < length es"
  shows "uniq_keys (remove_at es j)"
  unfolding uniq_keys_iff
proof (intro allI impI)
  fix l l' assume l: "l < length (remove_at es j)" "l' < length (remove_at es j)" "l \<noteq> l'"
  then have lt: "l < length es - 1" "l' < length es - 1" by simp_all
  then have eq: "remove_at es j ! l = (if l = j then last es else es ! l)"
    "remove_at es j ! l' = (if l' = j then last es else es ! l')"
    using assms(2) by (simp_all add: nth_remove_at)
  have last: "last es = es ! (length es - 1)"
    using assms(2) by (rule last_nth)
  from lt l(3) assms show "\<not> double_eq (fst (remove_at es j ! l)) (fst (remove_at es j ! l'))"
    unfolding eq last uniq_keys_iff by auto
qed

lemma uniq_keys_update_value:
  assumes "uniq_keys es"
  shows "uniq_keys (es[j := (fst (es ! j), v)])"
proof -
  have "fst (es[j := (fst (es ! j), v)] ! l) = fst (es ! l)" if "l < length es" for l
    using that by (cases "l = j") simp_all
  with assms show ?thesis by (simp add: uniq_keys_iff)
qed

lemma uniq_keys_append:
  assumes "uniq_keys es" "match_index k es = None"
  shows "uniq_keys (es @ [(k, v)])"
  unfolding uniq_keys_iff
proof (intro allI impI)
  fix i j assume ij: "i < length (es @ [(k, v)])" "j < length (es @ [(k, v)])" "i \<noteq> j"
  from assms(2) have miss: "\<not> double_eq (fst (es ! l)) k" "\<not> double_eq k (fst (es ! l))"
    if "l < length es" for l
    using that by (auto simp: match_index_None_iff double_eq_sym [of k])
  from ij assms(1) show "\<not> double_eq (fst ((es @ [(k, v)]) ! i)) (fst ((es @ [(k, v)]) ! j))"
    by (auto simp: nth_append uniq_keys_iff miss less_Suc_eq)
qed

lemma bstate_ok_abs_delete: "bstate_ok st \<Longrightarrow> bstate_ok (abs_delete st key)"
proof (cases st)
  case (Live es)
  assume "bstate_ok st"
  with Live show ?thesis
    by (cases "length es") (auto simp: uniq_keys_remove_at dest!: match_index_SomeD
        split: option.splits)
qed simp_all

lemma bstate_ok_abs_write:
  "bstate_ok st \<Longrightarrow> abs_write room st key val = Inr st' \<Longrightarrow> bstate_ok st'"
  by (cases st)
    (auto simp: uniq_keys_update_value uniq_keys_append capacity_def
      split: option.splits if_splits)

section \<open>Reading after writing and deleting\<close>

lemma match_index_update_value [simp]:
  "match_index key (es[j := (fst (es ! j), v)]) = match_index key es"
proof (induction es arbitrary: j)
  case Nil
  then show ?case by simp
next
  case (Cons e es)
  then show ?case by (cases j) simp_all
qed

lemma match_index_append:
  "match_index key (es @ [e]) =
     (case match_index key es of
        Some j \<Rightarrow> Some j
      | None \<Rightarrow> if double_eq (fst e) key then Some (length es) else None)"
  by (induction es) (auto split: option.splits)

text \<open>Keys that compare equal are searched for alike.\<close>

lemma match_index_cong: "double_eq k k' \<Longrightarrow> match_index k' es = match_index k es"
  by (induction es) (simp_all add: double_eq_cong [of k k'])

lemma lookup_cong:
  "double_eq k k' \<Longrightarrow> match_index k es \<noteq> None \<Longrightarrow> lookup es k' = lookup es k"
  by (auto simp: lookup_def match_index_cong [of k k'])

lemma abs_write_match:
  assumes "abs_write room st key val = Inr st'" "\<not> is_nan key"
  obtains es j where "st' = Live es" "match_index key es = Some j" "snd (es ! j) = val"
proof (cases st)
  case (Live es)
  show ?thesis
  proof (cases "match_index key es")
    case None
    with Live assms show ?thesis
      by (intro that [of "es @ [(key, val)]" "length es"])
        (auto simp: match_index_append split: if_splits)
  next
    case (Some j)
    then have "j < length es" by (auto dest: match_index_SomeD)
    with Live Some assms show ?thesis
      by (intro that [of "es[j := (fst (es ! j), val)]" j]) auto
  qed
qed (use assms in \<open>auto split: if_splits\<close>)

lemma abs_read_abs_write_same:
  assumes "abs_write room st key val = Inr st'" "double_eq key k"
  shows "abs_read st' k = val"
proof -
  from assms(2) have "\<not> is_nan key"
    by (auto simp: double_eq_def)
  with assms(1) obtain es j where "st' = Live es" "match_index key es = Some j" "snd (es ! j) = val"
    by (rule abs_write_match)
  with assms(2) show ?thesis
    by (simp add: lookup_def match_index_cong [of key k])
qed

lemma abs_read_abs_write_other:
  assumes "abs_write room st key val = Inr st'" "\<not> double_eq key k"
  shows "abs_read st' k = abs_read st k"
proof (cases st)
  case (Live es)
  show ?thesis
  proof (cases "match_index key es")
    case None
    with Live assms show ?thesis
      by (auto simp: lookup_def match_index_append nth_append dest: match_index_SomeD
          split: option.splits if_splits)
  next
    case (Some j)
    then have j: "j < length es" "double_eq (fst (es ! j)) key"
      by (auto dest: match_index_SomeD)
    have "match_index k es \<noteq> Some j"
    proof
      assume "match_index k es = Some j"
      then have "double_eq (fst (es ! j)) k" by (auto dest: match_index_SomeD)
      with j(2) assms(2) show False by (blast intro: double_eq_same_left)
    qed
    with Live Some assms j(1) show ?thesis
      by (auto simp: lookup_def dest: match_index_SomeD split: option.splits)
  qed
qed (use assms in \<open>auto split: if_splits\<close>)

lemma match_index_remove_at:
  assumes "uniq_keys es" "match_index key es = Some j"
  shows "match_index key (remove_at es j) = None"
  unfolding match_index_None_iff
proof
  fix e assume "e \<in> set (remove_at es j)"
  then obtain l where l: "l < length es - 1" "e = remove_at es j ! l"
    by (auto simp: in_set_conv_nth)
  from assms(2) have j: "j < length es" "double_eq (fst (es ! j)) key"
    by (auto dest: match_index_SomeD)
  from j(1) l(1) obtain m where m: "m < length es" "m \<noteq> j" "remove_at es j ! l = es ! m"
    by (rule nth_remove_at_old)
  from assms(1) m(1,2) j have "\<not> double_eq (fst (es ! m)) (fst (es ! j))"
    by (simp add: uniq_keys_iff)
  with j(2) l(2) m(3) show "\<not> double_eq (fst e) key"
    by (auto dest: double_eq_same_right)
qed

lemma match_index_drop_None: "match_index key es = None \<Longrightarrow> match_index key (drop n es) = None"
  by (auto simp: match_index_None_iff dest: in_set_dropD)

lemma abs_read_abs_delete_same:
  assumes "bstate_ok st" "double_eq key k \<or> key = k"
  shows "abs_read (abs_delete st key) k = k"
proof (cases st)
  case (Live es)
  from assms(2) have eq: "match_index k xs = match_index key xs" for xs
    by (auto simp: match_index_cong)
  from Live assms(1) show ?thesis
    by (cases "match_index key es") (simp_all add: lookup_def eq match_index_remove_at)
qed simp_all

lemma match_index_abs_delete:
  assumes "bstate_ok st"
  shows "match_index key (entries (abs_delete st key)) = None"
proof (cases st)
  case (Live es)
  with assms show ?thesis
    by (cases "match_index key es") (simp_all add: match_index_remove_at)
qed simp_all

lemma abs_delete_absent:
  "match_index key (entries st) = None \<Longrightarrow> abs_delete st key = st"
  by (cases st) simp_all

lemma abs_read_abs_delete_other:
  assumes "bstate_ok st" "\<not> double_eq key k"
  shows "abs_read (abs_delete st key) k = abs_read st k"
proof (cases st)
  case (Live es)
  show ?thesis
  proof (cases "match_index key es")
    case None
    with Live show ?thesis by simp
  next
    case (Some j)
    then have j: "j < length es" "double_eq (fst (es ! j)) key"
      by (auto dest: match_index_SomeD)
    from assms(1) Live have uniq: "uniq_keys es" by simp
    then have uniq': "uniq_keys (remove_at es j)" using j(1) by (rule uniq_keys_remove_at)
    have nj: "\<not> double_eq (fst (es ! j)) k"
      using j(2) assms(2) by (blast intro: double_eq_same_left)
    show ?thesis
    proof (cases "match_index k es")
      case None
      then have "\<not> double_eq (fst e) k" if "e \<in> set (remove_at es j)" for e
      proof -
        from that obtain l where l: "l < length es - 1" "e = remove_at es j ! l"
          by (auto simp: in_set_conv_nth)
        from j(1) l(1) obtain m where "m < length es" "remove_at es j ! l = es ! m"
          by (rule nth_remove_at_old)
        with None l(2) show ?thesis by (auto simp: match_index_None_iff)
      qed
      then have "lookup (remove_at es j) k = k" by (simp add: lookup_miss)
      with None Live Some show ?thesis
        by (cases "length es = 1") (simp_all add: lookup_def)
    next
      case k: (Some m)
      then have m: "m < length es" "double_eq (fst (es ! m)) k"
        by (auto dest: match_index_SomeD)
      with nj have "m \<noteq> j" by auto
      with j(1) m(1) obtain l where l: "l < length es - 1" "remove_at es j ! l = es ! m"
        by (rule nth_remove_at_kept)
      with m(2) uniq' have "lookup (remove_at es j) k = snd (es ! m)"
        using lookup_hit(2) [of "remove_at es j" l k] by simp
      moreover from l(1) have "length es \<noteq> 1" by simp
      ultimately show ?thesis
        using Live Some k by (simp add: lookup_def)
    qed
  qed
qed simp_all

section \<open>What a write needs of the allocator\<close>

lemma abs_write_room: "r \<or> st \<noteq> Unallocated \<Longrightarrow> abs_write r st k v = abs_write True st k v"
  by (cases st) simp_all

lemma abs_write_allocated: "abs_write r st k v = Inr st' \<Longrightarrow> st' \<noteq> Unallocated"
  by (cases st) (auto split: option.splits if_splits)

lemma abs_write_nan:
  "is_nan k \<Longrightarrow> abs_write r st k v = Inr st' \<Longrightarrow> entries st' = entries st @ [(k, v)]"
  by (cases st) (auto split: if_splits)

lemma abs_write_errors:
  "abs_write r st k v = Inl e \<Longrightarrow> e = NullDeref \<or> e = UseAfterFree \<or> e = OutOfBounds"
  by (cases st) (auto split: option.splits if_splits)

section \<open>Sequences of writes of new keys\<close>

text \<open>
  Writes of keys that are pairwise different and not yet in the bucket append their
  entries in order, until the bucket is full.
\<close>

lemma uniq_keys_appendD:
  "uniq_keys (xs @ e # es) \<Longrightarrow> match_index (fst e) xs = None"
  by (induction xs) simp_all

lemma uniq_keys_take: "uniq_keys es \<Longrightarrow> uniq_keys (take n es)"
  by (simp add: uniq_keys_iff)

lemma abs_writes_Live:
  assumes "uniq_keys (xs @ es)"
  shows "abs_writes (Live xs) es =
     (if es = [] \<or> length xs + length es \<le> capacity then Inr (Live (xs @ es))
      else Inl OutOfBounds)"
  using assms
proof (induction es arbitrary: xs)
  case Nil
  then show ?case by simp
next
  case (Cons e es)
  from Cons.prems have miss: "match_index (fst e) xs = None"
    by (rule uniq_keys_appendD)
  show ?case
  proof (cases "length xs < capacity")
    case True
    from Cons.prems have "abs_writes (Live (xs @ [e])) es =
        (if es = [] \<or> length (xs @ [e]) + length es \<le> capacity then Inr (Live ((xs @ [e]) @ es))
         else Inl OutOfBounds)"
      by (intro Cons.IH) simp
    with True miss show ?thesis
      by auto
  next
    case False
    with miss show ?thesis
      by simp
  qed
qed

lemma abs_writes_Unallocated:
  assumes "uniq_keys es" "es \<noteq> []"
  shows "abs_writes Unallocated es =
     (if length es \<le> capacity then Inr (Live es) else Inl OutOfBounds)"
proof -
  from assms(2) obtain e es' where es: "es = e # es'"
    by (cases es) auto
  with assms(1) have "uniq_keys ([e] @ es')"
    by simp
  then show ?thesis
    unfolding es by (simp add: abs_writes_Live capacity_def)
qed

end
