(* ===== verification/Bucket_Correct.thy ===== *)
theory Bucket_Correct
  imports Bucket Entries
begin

text \<open>
  The scans and the bucket operations of \<open>Bucket\<close> against the list
  specification of \<open>Entries\<close>. \<open>bucket_state\<close> reads the state of a bucket
  off the heap: unallocated, live with its entries, or freed. It is defined
  exactly on the buckets that are well formed, so \<open>bucket_state h b = Some st\<close>
  is the invariant of a bucket and its abstraction at once.
\<close>

section \<open>The state of a bucket in a heap\<close>

text \<open>The first \<open>c\<close> items of a block are within it and were written.\<close>

definition slots_ok :: "block \<Rightarrow> nat \<Rightarrow> bool" where
  "slots_ok blk c \<longleftrightarrow>
     2 * c \<le> length (cells blk) \<and> list_all (\<lambda>x. x \<noteq> None) (take (2 * c) (cells blk))"

definition entries_of :: "block \<Rightarrow> nat \<Rightarrow> entry list" where
  "entries_of blk c = map (\<lambda>j. (the (cells blk ! (2 * j)), the (cells blk ! (2 * j + 1)))) [0..<c]"

text \<open>
  A bucket with an allocated item array: the array has the initial capacity
  and the size \<open>calloc\<close> gave it, and the count is between 1 and the capacity.
\<close>

definition live_ok :: "bucket_t \<Rightarrow> block \<Rightarrow> bool" where
  "live_ok b blk \<longleftrightarrow>
     blength b = HASHMAP_BUCKET_INITSIZE \<and> 0 < itemCount b \<and> itemCount b \<le> blength b \<and>
     bsize blk = unat HASHMAP_BUCKET_INITSIZE * sizeof_bucketItem_t \<and>
     length (cells blk) = 2 * unat HASHMAP_BUCKET_INITSIZE \<and>
     slots_ok blk (unat (itemCount b))"

definition bucket_state :: "heap \<Rightarrow> bucket_t \<Rightarrow> bstate option" where
  "bucket_state h b =
     (case items b of
        None \<Rightarrow> if itemCount b = 0 \<and> blength b = 0 then Some Unallocated else None
      | Some a \<Rightarrow>
          (case blocks h a of
             None \<Rightarrow>
               if itemCount b = 0 \<and> blength b = HASHMAP_BUCKET_INITSIZE then Some Freed else None
           | Some blk \<Rightarrow>
               if live_ok b blk then Some (Live (entries_of blk (unat (itemCount b)))) else None))"

subsection \<open>Cells and entries\<close>

lemma length_entries_of [simp]: "length (entries_of blk c) = c"
  by (simp add: entries_of_def)

lemma nth_entries_of:
  "j < c \<Longrightarrow> entries_of blk c ! j = (the (cells blk ! (2 * j)), the (cells blk ! (2 * j + 1)))"
  by (simp add: entries_of_def)

lemma slots_ok_iff:
  "slots_ok blk c \<longleftrightarrow> 2 * c \<le> length (cells blk) \<and> (\<forall>n < 2 * c. cells blk ! n \<noteq> None)"
  by (auto simp: slots_ok_def list_all_length)

lemma slots_okD:
  "slots_ok blk c \<Longrightarrow> n < 2 * c \<Longrightarrow> n < length (cells blk) \<and> (\<exists>v. cells blk ! n = Some v)"
  by (auto simp: slots_ok_iff)

lemma slots_ok_update:
  "slots_ok blk c \<Longrightarrow> slots_ok (blk\<lparr>cells := (cells blk)[n := Some v]\<rparr>) c"
proof -
  have "(cells blk)[n := Some v] ! m \<noteq> None" if "m < length (cells blk)" "cells blk ! m \<noteq> None" for m
    using that by (cases "m = n") simp_all
  then show "slots_ok blk c \<Longrightarrow> ?thesis"
    by (auto simp: slots_ok_iff)
qed

lemma slots_ok_update2:
  "slots_ok blk c \<Longrightarrow> slots_ok (blk\<lparr>cells := (cells blk)[n := Some v, m := Some w]\<rparr>) c"
  using slots_ok_update [OF slots_ok_update, of blk c n v m w] by simp

lemma slots_ok_mono: "slots_ok blk c \<Longrightarrow> c' \<le> c \<Longrightarrow> slots_ok blk c'"
  by (auto simp: slots_ok_iff)

lemma slots_ok_Suc:
  "slots_ok blk (Suc c) \<longleftrightarrow>
     slots_ok blk c \<and> 2 * c + 1 < length (cells blk) \<and>
     cells blk ! (2 * c) \<noteq> None \<and> cells blk ! (2 * c + 1) \<noteq> None"
proof -
  have *: "n < 2 * Suc c \<longleftrightarrow> n < 2 * c \<or> n = 2 * c \<or> n = 2 * c + 1" for n
    by auto
  have "(\<forall>n < 2 * Suc c. cells blk ! n \<noteq> None) \<longleftrightarrow>
      (\<forall>n < 2 * c. cells blk ! n \<noteq> None) \<and> cells blk ! (2 * c) \<noteq> None \<and> cells blk ! (2 * c + 1) \<noteq> None"
    unfolding * by blast
  moreover have "2 * Suc c \<le> length (cells blk) \<longleftrightarrow> 2 * c + 1 < length (cells blk)"
    by auto
  ultimately show ?thesis
    unfolding slots_ok_iff by auto
qed

lemma entries_of_Suc:
  "entries_of blk (Suc c) =
     entries_of blk c @ [(the (cells blk ! (2 * c)), the (cells blk ! (2 * c + 1)))]"
  by (simp add: entries_of_def)

lemma entries_of_update_value:
  assumes "j < c" "2 * c \<le> length (cells blk)"
  shows "entries_of (blk\<lparr>cells := (cells blk)[Suc (2 * j) := Some v]\<rparr>) c =
         (entries_of blk c)[j := (fst (entries_of blk c ! j), v)]"
proof (rule nth_equalityI)
  fix l assume "l < length (entries_of (blk\<lparr>cells := (cells blk)[Suc (2 * j) := Some v]\<rparr>) c)"
  then have l: "l < c" by simp
  have "2 * l \<noteq> Suc (2 * j)" by presburger
  with l assms show "entries_of (blk\<lparr>cells := (cells blk)[Suc (2 * j) := Some v]\<rparr>) c ! l =
      (entries_of blk c)[j := (fst (entries_of blk c ! j), v)] ! l"
    by (simp add: nth_entries_of nth_list_update)
qed simp

lemma entries_of_update_beyond:
  "2 * c \<le> n \<Longrightarrow> entries_of (blk\<lparr>cells := (cells blk)[n := x]\<rparr>) c = entries_of blk c"
  by (rule nth_equalityI) (simp_all add: nth_entries_of)

lemma entries_of_update_beyond2:
  "2 * c \<le> n \<Longrightarrow> 2 * c \<le> m \<Longrightarrow>
     entries_of (blk\<lparr>cells := (cells blk)[n := x, m := y]\<rparr>) c = entries_of blk c"
  by (rule nth_equalityI) (simp_all add: nth_entries_of)

subsection \<open>Reading the state\<close>

lemma bucket_state_LiveE:
  assumes "bucket_state h b = Some (Live es)"
  obtains a blk where "items b = Some a" "blocks h a = Some blk" "live_ok b blk"
    "es = entries_of blk (unat (itemCount b))"
  using assms by (auto simp: bucket_state_def split: option.splits if_splits)

lemma bucket_state_LiveI:
  "items b = Some a \<Longrightarrow> blocks h a = Some blk \<Longrightarrow> live_ok b blk \<Longrightarrow>
     bucket_state h b = Some (Live (entries_of blk (unat (itemCount b))))"
  by (simp add: bucket_state_def)

lemma bucket_state_UnallocatedD:
  "bucket_state h b = Some Unallocated \<Longrightarrow> items b = None \<and> itemCount b = 0 \<and> blength b = 0"
  by (auto simp: bucket_state_def split: option.splits if_splits)

lemma bucket_state_FreedD:
  "bucket_state h b = Some Freed \<Longrightarrow>
     \<exists>a. items b = Some a \<and> blocks h a = None \<and> itemCount b = 0 \<and>
         blength b = HASHMAP_BUCKET_INITSIZE"
  by (auto simp: bucket_state_def split: option.splits if_splits)

lemma live_ok_count:
  "live_ok b blk \<Longrightarrow> 0 < unat (itemCount b) \<and> unat (itemCount b) \<le> capacity"
  by (auto simp: live_ok_def HASHMAP_BUCKET_INITSIZE_def capacity_def word_less_nat_alt
      word_le_nat_alt)

lemma bucket_state_Live_length:
  "bucket_state h b = Some (Live es) \<Longrightarrow> length es = unat (itemCount b)"
  by (auto elim: bucket_state_LiveE)

lemma bucket_state_Live_bounds:
  assumes "bucket_state h b = Some (Live es)"
  shows "es \<noteq> [] \<and> length es \<le> capacity"
proof -
  from assms obtain a blk where "live_ok b blk" "es = entries_of blk (unat (itemCount b))"
    by (rule bucket_state_LiveE)
  then have "0 < length es \<and> length es \<le> capacity"
    by (simp add: live_ok_count)
  then show ?thesis by auto
qed

text \<open>The state of a bucket depends on the heap only through the block of its items.\<close>

lemma bucket_state_cong:
  "(\<And>a. items b = Some a \<Longrightarrow> blocks h' a = blocks h a) \<Longrightarrow> bucket_state h' b = bucket_state h b"
  by (simp add: bucket_state_def split: option.splits)

subsection \<open>Loads from a live bucket\<close>

lemma live_load_key:
  assumes "bucket_state h b = Some (Live es)" "i < itemCount b"
  shows "load h (items b) (item_key i) = Inr (fst (es ! unat i))"
proof -
  from assms(1) obtain a blk where b: "items b = Some a" "blocks h a = Some blk"
    "live_ok b blk" "es = entries_of blk (unat (itemCount b))"
    by (rule bucket_state_LiveE)
  from assms(2) have i: "unat i < unat (itemCount b)"
    by (simp add: word_less_nat_alt)
  then have "2 * unat i < 2 * unat (itemCount b)" by simp
  with b(3) have "2 * unat i < length (cells blk) \<and> (\<exists>v. cells blk ! (2 * unat i) = Some v)"
    by (intro slots_okD) (simp_all add: live_ok_def)
  with i b show ?thesis
    by (auto simp: load_live item_key_def nth_entries_of)
qed

lemma live_load_value:
  assumes "bucket_state h b = Some (Live es)" "i < itemCount b"
  shows "load h (items b) (item_value i) = Inr (snd (es ! unat i))"
proof -
  from assms(1) obtain a blk where b: "items b = Some a" "blocks h a = Some blk"
    "live_ok b blk" "es = entries_of blk (unat (itemCount b))"
    by (rule bucket_state_LiveE)
  from assms(2) have i: "unat i < unat (itemCount b)"
    by (simp add: word_less_nat_alt)
  then have "2 * unat i + 1 < 2 * unat (itemCount b)" by simp
  with b(3) have "2 * unat i + 1 < length (cells blk) \<and> (\<exists>v. cells blk ! (2 * unat i + 1) = Some v)"
    by (intro slots_okD) (simp_all add: live_ok_def)
  with i b show ?thesis
    by (auto simp: load_live item_value_def nth_entries_of)
qed

lemma live_drop:
  assumes "bucket_state h b = Some (Live es)" "i < itemCount b"
  shows "drop (unat i) es = es ! unat i # drop (unat (i + 1)) es"
proof -
  from assms have "unat i < length es"
    by (simp add: bucket_state_Live_length word_less_nat_alt)
  then show ?thesis
    using assms(2) by (simp add: Cons_nth_drop_Suc unat_Suc_less)
qed

lemma live_drop_Nil:
  assumes "bucket_state h b = Some (Live es)" "\<not> i < itemCount b"
  shows "drop (unat i) es = []"
  using assms by (simp add: bucket_state_Live_length word_less_nat_alt)

section \<open>Reading\<close>

lemma read_loop_Live:
  assumes "bucket_state h b = Some (Live es)"
  shows "read_loop h b key i = Inr (lookup (drop (unat i) es) key)"
  using assms
proof (induction h b key i rule: read_loop.induct)
  case (1 h b key i)
  note live = "1.prems"
  show ?case
  proof (cases "i < itemCount b")
    case True
    show ?thesis
    proof (cases "double_eq (fst (es ! unat i)) key")
      case match: True
      with True live show ?thesis
        by (subst read_loop.simps) (simp add: live_load_key live_load_value live_drop)
    next
      case False
      with True live have "read_loop h b key (i + 1) = Inr (lookup (drop (unat (i + 1)) es) key)"
        by (intro "1.IH") (simp_all add: live_load_key)
      with True False live show ?thesis
        by (subst read_loop.simps) (simp add: live_load_key live_drop)
    qed
  next
    case False
    with live show ?thesis
      by (subst read_loop.simps) (simp add: live_drop_Nil)
  qed
qed

text \<open>
  On every well-formed bucket the read of the source returns, and returns what
  the list specification says: the key itself for a bucket without live items, and for
  a live bucket the value of the first entry whose key compares equal to the key, or the
  key if there is none.
\<close>

lemma bucket_read_correct:
  assumes "bucket_state h b = Some st"
  shows "bucket_read h b key = Inr (abs_read st key)"
proof (cases st)
  case Unallocated
  with assms show ?thesis
    by (auto simp: bucket_read_def dest: bucket_state_UnallocatedD)
next
  case (Live es)
  with assms show ?thesis
    by (auto simp: bucket_read_def read_loop_Live elim: bucket_state_LiveE)
next
  case Freed
  with assms show ?thesis
    by (auto simp: bucket_read_def read_loop.simps dest!: bucket_state_FreedD)
qed


section \<open>Steps that are local to a bucket\<close>

text \<open>
  What an operation on the bucket \<open>b\<close> may do to the heap: it keeps the heap
  well formed, changes no block that existed before other than the one of
  \<open>b\<close>, and leaves the item pointer as it was or sets it to a fresh address.
\<close>

definition local_step :: "heap \<Rightarrow> bucket_t \<Rightarrow> heap \<Rightarrow> bucket_t \<Rightarrow> bool" where
  "local_step h b h' b' \<longleftrightarrow>
     heap_ok h' \<and> next_addr h \<le> next_addr h' \<and>
     (\<forall>a < next_addr h. items b \<noteq> Some a \<longrightarrow> blocks h' a = blocks h a) \<and>
     (items b' = items b \<or> (\<exists>a. items b' = Some a \<and> next_addr h \<le> a \<and> a < next_addr h'))"

lemma local_step_refl: "heap_ok h \<Longrightarrow> local_step h b h b"
  by (simp add: local_step_def)

lemma local_step_upd:
  "heap_ok h \<Longrightarrow> items b = Some a \<Longrightarrow> blocks h a = Some blk \<Longrightarrow> items b' = Some a \<Longrightarrow>
     local_step h b (h\<lparr>blocks := (blocks h)(a \<mapsto> blk')\<rparr>) b'"
  by (auto simp: local_step_def heap_ok_def)

lemma bucket_state_upd:
  "items b' = Some a \<Longrightarrow>
     bucket_state (h\<lparr>blocks := (blocks h)(a \<mapsto> blk')\<rparr>) b' =
       (if live_ok b' blk' then Some (Live (entries_of blk' (unat (itemCount b')))) else None)"
  by (simp add: bucket_state_def)

section \<open>Writing\<close>

subsection \<open>The scan\<close>

lemma write_scan_miss:
  assumes "bucket_state h b = Some (Live es)" "match_index key (drop (unat i) es) = None"
  shows "write_scan h b key val i = Inr (NotFound (if i < itemCount b then itemCount b else i))"
  using assms
proof (induction h b key val i rule: write_scan.induct)
  case (1 h b key val i)
  note live = "1.prems"(1)
  show ?case
  proof (cases "i < itemCount b")
    case True
    with live "1.prems"(2) have miss: "\<not> double_eq (fst (es ! unat i)) key"
      "match_index key (drop (unat (i + 1)) es) = None"
      by (auto simp: live_drop split: if_splits)
    with True live have "write_scan h b key val (i + 1) =
        Inr (NotFound (if i + 1 < itemCount b then itemCount b else i + 1))"
      by (intro "1.IH") (simp_all add: live_load_key)
    moreover from True have "(if i + 1 < itemCount b then itemCount b else i + 1) = itemCount b"
      by (simp add: not_less_Suc_word)
    ultimately show ?thesis
      using True miss live by (subst write_scan.simps) (simp add: live_load_key)
  next
    case False
    then show ?thesis
      by (subst write_scan.simps) simp
  qed
qed

lemma write_scan_hit:
  assumes "bucket_state h b = Some (Live es)" "match_index key (drop (unat i) es) = Some d"
  shows "write_scan h b key val i =
     bindE (store h (items b) (2 * (unat i + d) + 1) val) (\<lambda>h. Inr (Overwritten h))"
  using assms
proof (induction h b key val i arbitrary: d rule: write_scan.induct)
  case (1 h b key val i)
  note live = "1.prems"(1)
  show ?case
  proof (cases "i < itemCount b")
    case True
    note drop = live_drop [OF live True]
    show ?thesis
    proof (cases "double_eq (fst (es ! unat i)) key")
      case match: True
      with "1.prems"(2) drop have "d = 0" by simp
      with True match live show ?thesis
        by (subst write_scan.simps) (simp add: live_load_key item_value_def)
    next
      case False
      with "1.prems"(2) drop obtain d' where d': "match_index key (drop (unat (i + 1)) es) = Some d'"
        "d = Suc d'"
        by auto
      with True False live have "write_scan h b key val (i + 1) =
          bindE (store h (items b) (2 * (unat (i + 1) + d') + 1) val) (\<lambda>h. Inr (Overwritten h))"
        by (intro "1.IH") (simp_all add: live_load_key)
      with True False live d'(2) show ?thesis
        by (subst write_scan.simps) (simp add: live_load_key unat_Suc_less)
    qed
  next
    case False
    with live "1.prems"(2) show ?thesis
      by (simp add: live_drop_Nil)
  qed
qed

subsection \<open>The five cases of a write\<close>

definition room :: "heap \<Rightarrow> bool" where
  "room h \<longleftrightarrow> unat HASHMAP_BUCKET_INITSIZE * sizeof_bucketItem_t \<le> avail h"

lemma write_scan_empty: "itemCount b = 0 \<Longrightarrow> write_scan h b key val 0 = Inr (NotFound 0)"
  by (subst write_scan.simps) simp

lemma bucket_write_Unallocated_room:
  assumes "heap_ok h" "bucket_state h b = Some Unallocated" "room h"
  shows "\<exists>h' b'. bucket_write h b key val = Inr (h', b') \<and>
           bucket_state h' b' = Some (Live [(key, val)]) \<and> local_step h b h' b'"
proof -
  from assms(2) have b: "items b = None" "itemCount b = 0" "blength b = 0"
    by (auto dest: bucket_state_UnallocatedD)
  define a where "a = next_addr h"
  define blk where "blk = \<lparr>bsize = 128, cells = (replicate 16 (Some 0))[0 := Some key, 1 := Some val]\<rparr>"
  define h' where "h' = h\<lparr>blocks := (blocks h)(a \<mapsto> blk), next_addr := Suc a, avail := avail h - 128\<rparr>"
  define b' where "b' = b\<lparr>items := Some a, blength := 8, itemCount := 1\<rparr>"
  from assms(3) b have "bucket_write h b key val = Inr (h', b')"
    by (simp add: bucket_write_def bucket_init_def calloc_def alloc_def write_scan_empty
        bucket_grow_def bucket_append_def store_def item_key_def item_value_def room_def
        HASHMAP_BUCKET_INITSIZE_def sizeof_bucketItem_t_def h'_def b'_def blk_def a_def)
  moreover have "slots_ok blk 1"
    by (auto simp: slots_ok_iff blk_def nth_list_update less_Suc_eq numeral_2_eq_2)
  then have "live_ok b' blk"
    by (simp add: live_ok_def b'_def blk_def HASHMAP_BUCKET_INITSIZE_def sizeof_bucketItem_t_def)
  then have "bucket_state h' b' = Some (Live [(key, val)])"
    by (simp add: bucket_state_def h'_def b'_def entries_of_def blk_def)
  moreover from assms(1) b have "local_step h b h' b'"
    by (auto simp: local_step_def heap_ok_def h'_def b'_def a_def)
  ultimately show ?thesis by blast
qed

lemma bucket_write_Unallocated_no_room:
  assumes "bucket_state h b = Some Unallocated" "\<not> room h"
  shows "bucket_write h b key val = Inl NullDeref"
proof -
  from assms(1) have b: "items b = None" "itemCount b = 0" "blength b = 0"
    by (auto dest: bucket_state_UnallocatedD)
  with assms(2) show ?thesis
    by (simp add: bucket_write_def bucket_init_def calloc_def alloc_def write_scan_empty
        bucket_grow_def bucket_append_def room_def HASHMAP_BUCKET_INITSIZE_def)
qed

lemma bucket_write_Freed:
  assumes "bucket_state h b = Some Freed"
  shows "bucket_write h b key val = Inl UseAfterFree"
proof -
  from assms obtain a where "items b = Some a" "blocks h a = None" "itemCount b = 0"
    "blength b = HASHMAP_BUCKET_INITSIZE"
    by (auto dest: bucket_state_FreedD)
  then show ?thesis
    by (simp add: bucket_write_def bucket_init_def write_scan_empty bucket_grow_def
        bucket_append_def HASHMAP_BUCKET_INITSIZE_def)
qed

lemma live_ok_update:
  "live_ok b blk \<Longrightarrow> live_ok b (blk\<lparr>cells := (cells blk)[n := Some v]\<rparr>)"
  by (auto simp: live_ok_def slots_ok_update)

lemma live_slot_bound:
  "live_ok b blk \<Longrightarrow> j < unat (itemCount b) \<Longrightarrow> Suc (2 * j) < length (cells blk)"
  by (auto simp: live_ok_def slots_ok_iff)

lemma live_ok_cells: "live_ok b blk \<Longrightarrow> 2 * unat (itemCount b) \<le> length (cells blk)"
  by (simp add: live_ok_def slots_ok_iff)

lemma bucket_init_allocated: "items b \<noteq> None \<Longrightarrow> bucket_init h b = (h, b)"
  by (auto simp: bucket_init_def)

lemma bucket_write_overwrite:
  assumes "heap_ok h" "bucket_state h b = Some (Live es)" "match_index key es = Some j"
  shows "\<exists>h'. bucket_write h b key val = Inr (h', b) \<and>
           bucket_state h' b = Some (Live (es[j := (fst (es ! j), val)])) \<and> local_step h b h' b"
proof -
  from assms(2) obtain a blk where live: "items b = Some a" "blocks h a = Some blk" "live_ok b blk"
    "es = entries_of blk (unat (itemCount b))"
    by (rule bucket_state_LiveE)
  from assms(3) have j: "j < unat (itemCount b)"
    using live(4) by (auto dest: match_index_SomeD)
  define blk' where "blk' = blk\<lparr>cells := (cells blk)[2 * j + 1 := Some val]\<rparr>"
  define h' where "h' = h\<lparr>blocks := (blocks h)(a \<mapsto> blk')\<rparr>"
  from live j have "store h (items b) (2 * j + 1) val = Inr h'"
    by (simp add: store_live live_slot_bound h'_def blk'_def)
  with assms(2,3) live(1) have "bucket_write h b key val = Inr (h', b)"
    by (simp add: bucket_write_def bucket_init_allocated write_scan_hit [where d = j])
  moreover from live j have "bucket_state h' b = Some (Live (es[j := (fst (es ! j), val)]))"
    unfolding h'_def blk'_def
    by (simp add: bucket_state_upd live_ok_update entries_of_update_value live_ok_cells)
  moreover from assms(1) live have "local_step h b h' b"
    unfolding h'_def by (intro local_step_upd)
  ultimately show ?thesis by blast
qed

lemma write_scan_Live_miss:
  assumes "bucket_state h b = Some (Live es)" "match_index key es = None"
  shows "write_scan h b key val 0 = Inr (NotFound (itemCount b))"
proof -
  from assms(1) have "0 < itemCount b"
    by (auto elim!: bucket_state_LiveE simp: live_ok_def)
  with write_scan_miss [of h b es key 0 val] assms show ?thesis
    by simp
qed

lemma bucket_write_append:
  assumes "heap_ok h" "bucket_state h b = Some (Live es)" "match_index key es = None"
    "length es < capacity"
  shows "\<exists>h'. bucket_write h b key val = Inr (h', b\<lparr>itemCount := itemCount b + 1\<rparr>) \<and>
           bucket_state h' (b\<lparr>itemCount := itemCount b + 1\<rparr>) = Some (Live (es @ [(key, val)])) \<and>
           local_step h b h' (b\<lparr>itemCount := itemCount b + 1\<rparr>)"
proof -
  from assms(2) obtain a blk where live: "items b = Some a" "blocks h a = Some blk" "live_ok b blk"
    "es = entries_of blk (unat (itemCount b))"
    by (rule bucket_state_LiveE)
  define c where "c = unat (itemCount b)"
  from assms(4) live(3,4) have c: "c < 8" "itemCount b \<noteq> blength b" "unat (itemCount b + 1) = Suc c"
    "length (cells blk) = 16"
    by (auto simp: c_def capacity_def live_ok_def HASHMAP_BUCKET_INITSIZE_def word_less_nat_alt
        unat_Suc_less [where c = 8])
  define blk' where "blk' = blk\<lparr>cells := (cells blk)[2 * c := Some key, 2 * c + 1 := Some val]\<rparr>"
  define h' where "h' = h\<lparr>blocks := (blocks h)(a \<mapsto> blk')\<rparr>"
  let ?b' = "b\<lparr>itemCount := itemCount b + 1\<rparr>"
  from live c have "bucket_append h b (itemCount b) key val = Inr (h', ?b')"
    by (simp add: bucket_append_def item_key_def item_value_def store_live h'_def blk'_def c_def)
  with assms(2,3) live(1) c(2) have "bucket_write h b key val = Inr (h', ?b')"
    by (simp add: bucket_write_def bucket_init_allocated write_scan_Live_miss bucket_grow_def)
  moreover from live(3) c have "live_ok ?b' blk'"
    by (auto simp: live_ok_def blk'_def slots_ok_Suc slots_ok_update2 c_def [symmetric]
        HASHMAP_BUCKET_INITSIZE_def word_le_nat_alt word_less_nat_alt)
  with live(1) have "bucket_state h' ?b' = Some (Live (entries_of blk' (Suc c)))"
    by (simp add: h'_def bucket_state_upd c)
  moreover from c have "entries_of blk' (Suc c) = es @ [(key, val)]"
    by (simp add: entries_of_Suc blk'_def live(4) c_def [symmetric] entries_of_update_beyond2)
  moreover from assms(1) live have "local_step h b h' ?b'"
    unfolding h'_def by (intro local_step_upd) simp_all
  ultimately show ?thesis by auto
qed

lemma bucket_write_full:
  assumes "bucket_state h b = Some (Live es)" "match_index key es = None"
    "\<not> length es < capacity"
  shows "bucket_write h b key val = Inl OutOfBounds"
proof -
  from assms(1) obtain a blk where live: "items b = Some a" "blocks h a = Some blk" "live_ok b blk"
    "es = entries_of blk (unat (itemCount b))"
    by (rule bucket_state_LiveE)
  from assms(3) live(3,4) have c: "itemCount b = 8" "blength b = 8" "length (cells blk) = 16"
    "bsize blk = 128"
    by (auto simp: capacity_def live_ok_def HASHMAP_BUCKET_INITSIZE_def word_le_nat_alt
        word_less_nat_alt sizeof_bucketItem_t_def intro: word_unat_eq_iff [THEN iffD2])
  from live c have "bucket_grow h b = Inr
      (h\<lparr>blocks := (blocks h)(a := None, next_addr h \<mapsto> \<lparr>bsize = 16, cells = take 2 (cells blk)\<rparr>),
         next_addr := Suc (next_addr h), avail := avail h + bsize blk - 16\<rparr>,
       b\<lparr>items := Some (next_addr h), blength := 16\<rparr>)"
    by (simp add: bucket_grow_def realloc_def)
  with assms(1,2) live(1) c show ?thesis
    by (simp add: bucket_write_def bucket_init_allocated write_scan_Live_miss bucket_append_def
        store_def item_key_def)
qed

subsection \<open>The write of a bucket against the list specification\<close>

text \<open>
  On a well-formed bucket in a well-formed heap the body of
  \<open>hashmapWrite\<close> does what \<open>abs_write\<close> says, on all five paths: where the list
  specification fails the C code is undefined with the same error (a null item
  array after a failed \<open>calloc\<close>, a released item array, a ninth entry stored past
  the block that \<open>realloc\<close> shrank to 16 bytes), and where it succeeds the C code
  returns a well-formed bucket holding the specified entries, having touched no
  block of another bucket.
\<close>

lemma bucket_write_correct:
  assumes "heap_ok h" "bucket_state h b = Some st"
  shows "case abs_write (room h) st key val of
           Inl e \<Rightarrow> bucket_write h b key val = Inl e
         | Inr st' \<Rightarrow>
             (\<exists>h' b'. bucket_write h b key val = Inr (h', b') \<and>
                bucket_state h' b' = Some st' \<and> local_step h b h' b')"
proof (cases st)
  case Unallocated
  with assms show ?thesis
    using bucket_write_Unallocated_room [of h b key val]
      bucket_write_Unallocated_no_room [of h b key val]
    by simp
next
  case Freed
  with assms show ?thesis
    by (simp add: bucket_write_Freed)
next
  case (Live es)
  show ?thesis
  proof (cases "match_index key es")
    case (Some j)
    with assms Live bucket_write_overwrite [of h b es key j val] show ?thesis
      by auto
  next
    case None
    with assms Live bucket_write_append [of h b es key val] bucket_write_full [of h b es key val]
    show ?thesis
      by auto
  qed
qed

section \<open>Deleting\<close>

subsection \<open>Removal of one item\<close>

lemma entries_of_update_item:
  assumes "j < c" "2 * c \<le> length (cells blk)"
  shows "entries_of (blk\<lparr>cells := (cells blk)[2 * j := Some k, Suc (2 * j) := Some v]\<rparr>) c =
         (entries_of blk c)[j := (k, v)]" (is "entries_of ?blk c = _")
proof (rule nth_equalityI)
  fix l assume "l < length (entries_of ?blk c)"
  then have l: "l < c" by simp
  have "2 * l \<noteq> Suc (2 * j)" "Suc (2 * l) \<noteq> 2 * j" by presburger+
  with l assms show "entries_of ?blk c ! l = (entries_of blk c)[j := (k, v)] ! l"
    by (simp add: nth_entries_of nth_list_update)
qed simp

lemma entries_of_butlast: "butlast (entries_of blk c) = entries_of blk (c - 1)"
  by (rule nth_equalityI) (simp_all add: nth_butlast nth_entries_of)

lemma delete_at_last:
  assumes "heap_ok h" "bucket_state h b = Some (Live [e])"
  shows "\<exists>h'. delete_at h b i = Inr (h', b\<lparr>itemCount := 0\<rparr>) \<and>
           bucket_state h' (b\<lparr>itemCount := 0\<rparr>) = Some Freed \<and>
           local_step h b h' (b\<lparr>itemCount := 0\<rparr>)"
proof -
  from assms(2) obtain a blk where live: "items b = Some a" "blocks h a = Some blk" "live_ok b blk"
    "[e] = entries_of blk (unat (itemCount b))"
    by (rule bucket_state_LiveE)
  from live(4) have "unat (itemCount b) = 1"
    by (metis length_entries_of length_Cons list.size(3) One_nat_def)
  then have c: "itemCount b = 1"
    by (simp add: word_unat_eq_iff)
  define h' where "h' = h\<lparr>blocks := (blocks h)(a := None), avail := avail h + bsize blk\<rparr>"
  from live c have "delete_at h b i = Inr (h', b\<lparr>itemCount := 0\<rparr>)"
    by (simp add: delete_at_def free_live h'_def)
  moreover from live have "bucket_state h' (b\<lparr>itemCount := 0\<rparr>) = Some Freed"
    by (simp add: bucket_state_def h'_def live_ok_def)
  moreover from assms(1) live have "local_step h b h' (b\<lparr>itemCount := 0\<rparr>)"
    by (auto simp: local_step_def heap_ok_def h'_def)
  ultimately show ?thesis by blast
qed

lemma pred_count:
  fixes c :: u32
  assumes "1 < unat c"
  shows "unat (c - 1) = unat c - 1" "c - 1 < c" "c - 1 \<noteq> 0"
  using assms by unat_arith+

text \<open>The four memory accesses that move the last item into slot \<open>i\<close>.\<close>

lemma delete_at_move:
  assumes "bucket_state h b = Some (Live es)" "1 < length es" "i < itemCount b"
    "items b = Some a" "blocks h a = Some blk"
  shows "delete_at h b i =
     Inr (h\<lparr>blocks := (blocks h)(a \<mapsto> blk\<lparr>cells := (cells blk)
              [2 * unat i := Some (fst (last es)), Suc (2 * unat i) := Some (snd (last es))]\<rparr>)\<rparr>,
          b\<lparr>itemCount := itemCount b - 1\<rparr>)"
proof -
  let ?n = "itemCount b - 1" and ?k = "fst (last es)" and ?v = "snd (last es)"
  let ?h1 = "h\<lparr>blocks := (blocks h)(a \<mapsto> blk\<lparr>cells := (cells blk)[2 * unat i := Some ?k]\<rparr>)\<rparr>"
  from assms(1,2) have c: "1 < unat (itemCount b)" "length es = unat (itemCount b)"
    by (simp_all add: bucket_state_Live_length)
  with pred_count [of "itemCount b"]
  have n: "unat ?n = length es - 1" "?n < itemCount b" "?n \<noteq> 0"
    by simp_all
  from assms(1,3,4,5) have len: "Suc (2 * unat i) < length (cells blk)"
    by (auto elim!: bucket_state_LiveE simp: live_slot_bound word_less_nat_alt)
  from c have last: "es ! (length es - 1) = last es"
    using last_nth [of "length es - 1" es] by simp
  with assms(1) n have ld: "load h (items b) (item_key ?n) = Inr ?k"
    "load h (items b) (item_value ?n) = Inr ?v"
    by (simp_all add: live_load_key live_load_value)
  from assms(4,5) len have st1: "store h (items b) (item_key i) ?k = Inr ?h1"
    by (simp add: store_live item_key_def)
  have "item_value ?n \<noteq> item_key i"
    unfolding item_value_def item_key_def by presburger
  with st1 ld(2) have "load ?h1 (items b) (item_value ?n) = Inr ?v"
    by (simp add: load_store_other_slot)
  with n(3) ld(1) st1 assms(4) len show ?thesis
    by (simp add: delete_at_def store_live item_value_def)
qed

lemma delete_at_more:
  assumes "heap_ok h" "bucket_state h b = Some (Live es)" "1 < length es" "i < itemCount b"
  shows "\<exists>h'. delete_at h b i = Inr (h', b\<lparr>itemCount := itemCount b - 1\<rparr>) \<and>
           bucket_state h' (b\<lparr>itemCount := itemCount b - 1\<rparr>) = Some (Live (remove_at es (unat i))) \<and>
           local_step h b h' (b\<lparr>itemCount := itemCount b - 1\<rparr>)"
proof -
  from assms(2) obtain a blk where live: "items b = Some a" "blocks h a = Some blk" "live_ok b blk"
    "es = entries_of blk (unat (itemCount b))"
    by (rule bucket_state_LiveE)
  define c where "c = unat (itemCount b)"
  let ?b' = "b\<lparr>itemCount := itemCount b - 1\<rparr>"
  from assms(3,4) live(4) have c: "1 < c" "length es = c" "unat i < c"
    by (simp_all add: c_def word_less_nat_alt)
  with pred_count [of "itemCount b"] have n: "unat (itemCount b - 1) = c - 1"
    "itemCount b - 1 < itemCount b" "itemCount b - 1 \<noteq> 0"
    by (simp_all add: c_def)
  define blk' where "blk' = blk\<lparr>cells := (cells blk)
      [2 * unat i := Some (fst (last es)), Suc (2 * unat i) := Some (snd (last es))]\<rparr>"
  define h' where "h' = h\<lparr>blocks := (blocks h)(a \<mapsto> blk')\<rparr>"
  from assms(2-4) live(1,2) have "delete_at h b i = Inr (h', ?b')"
    unfolding h'_def blk'_def by (rule delete_at_move)
  moreover from live(3) c n have "live_ok ?b' blk'"
    by (auto simp: live_ok_def blk'_def c_def [symmetric] word_less_nat_alt word_le_nat_alt
        intro: slots_ok_update2 slots_ok_mono)
  with live(1) have "bucket_state h' ?b' = Some (Live (entries_of blk' (c - 1)))"
    by (simp add: h'_def bucket_state_upd n)
  moreover from live(3) have "2 * c \<le> length (cells blk)"
    by (simp add: c_def live_ok_cells)
  with c have "entries_of blk' (c - 1) = remove_at es (unat i)"
    unfolding remove_at_def entries_of_butlast [symmetric] blk'_def
    by (simp add: entries_of_update_item live(4) c_def [symmetric])
  moreover from assms(1) live have "local_step h b h' ?b'"
    unfolding h'_def by (intro local_step_upd) simp_all
  ultimately show ?thesis by auto
qed

lemma delete_at_Live:
  assumes "heap_ok h" "bucket_state h b = Some (Live es)" "i < itemCount b"
  shows "\<exists>h' b'. delete_at h b i = Inr (h', b') \<and>
           bucket_state h' b' =
             Some (if length es = 1 then Freed else Live (remove_at es (unat i))) \<and>
           local_step h b h' b'"
proof (cases "length es = 1")
  case True
  then obtain e where "es = [e]"
    by (cases es) simp_all
  with assms delete_at_last [of h b e i] True show ?thesis
    by auto
next
  case False
  with assms(2) have "1 < length es"
    using bucket_state_Live_bounds [of h b es] by (cases es) simp_all
  with assms delete_at_more [of h b es i] False show ?thesis
    by auto
qed

subsection \<open>The scan\<close>

lemma delete_loop_stop: "\<not> i < itemCount b \<Longrightarrow> delete_loop h b key i = Inr (h, b)"
  by (subst delete_loop.simps) simp

lemma delete_loop_miss:
  assumes "bucket_state h b = Some (Live es)" "match_index key (drop (unat i) es) = None"
  shows "delete_loop h b key i = Inr (h, b)"
  using assms
proof (induction i rule: word_nat_induct_up [where c = "itemCount b"])
  case (stop i)
  then show ?case by (simp add: delete_loop_stop)
next
  case (step i)
  from step.prems step.hyps have miss: "\<not> double_eq (fst (es ! unat i)) key"
    "match_index key (drop (unat (i + 1)) es) = None"
    by (auto simp: live_drop split: if_splits)
  with step show ?case
    by (subst delete_loop.simps) (simp add: live_load_key)
qed

lemma delete_loop_done:
  assumes "bucket_state h b = Some st" "match_index key (entries st) = None"
  shows "delete_loop h b key i = Inr (h, b)"
proof (cases st)
  case (Live es)
  with assms show ?thesis
    by (simp add: delete_loop_miss match_index_drop_None)
qed (use assms in \<open>auto simp: delete_loop_stop dest: bucket_state_UnallocatedD bucket_state_FreedD\<close>)

lemma delete_loop_hit:
  assumes "heap_ok h" "bucket_state h b = Some (Live es)" "uniq_keys es"
    "match_index key es = Some j" "unat i \<le> j"
  shows "\<exists>h' b'. delete_loop h b key i = Inr (h', b') \<and>
           bucket_state h' b' = Some (if length es = 1 then Freed else Live (remove_at es j)) \<and>
           local_step h b h' b'"
  using assms(5)
proof (induction i rule: word_nat_induct_up [where c = "itemCount b"])
  case (stop i)
  with assms(2,4) show ?case
    by (auto simp: word_less_nat_alt bucket_state_Live_length [symmetric] dest: match_index_SomeD)
next
  case (step i)
  note jD = match_index_SomeD [OF assms(4)]
  show ?case
  proof (cases "unat i = j")
    case True
    let ?st = "if length es = 1 then Freed else Live (remove_at es j)"
    from assms(1,2) step.hyps(1) True obtain h' b' where del: "delete_at h b i = Inr (h', b')"
      "bucket_state h' b' = Some ?st" "local_step h b h' b'"
      using delete_at_Live [of h b es i] by auto
    from assms(3,4) have "match_index key (entries ?st) = None"
      by (simp add: match_index_remove_at)
    with del(2) have "delete_loop h' b' key (i + 1) = Inr (h', b')"
      by (rule delete_loop_done)
    with del step.hyps(1) assms(2) jD True show ?thesis
      by (subst delete_loop.simps) (simp add: live_load_key)
  next
    case False
    with step.prems step.hyps(1) have "unat (i + 1) \<le> j" "unat i < j"
      by (simp_all add: unat_Suc_less)
    with step.hyps(1) step.IH assms(2) jD show ?thesis
      by (subst delete_loop.simps) (simp add: live_load_key)
  qed
qed

subsection \<open>The delete of a bucket against the list specification\<close>

text \<open>
  On a well-formed bucket whose keys are pairwise different the body of
  \<open>hashmapDelete\<close> returns, and leaves a well-formed bucket in the state
  \<open>abs_delete\<close> gives.
\<close>

lemma bucket_delete_correct:
  assumes "heap_ok h" "bucket_state h b = Some st" "bstate_ok st"
  shows "\<exists>h' b'. bucket_delete h b key = Inr (h', b') \<and>
           bucket_state h' b' = Some (abs_delete st key) \<and> local_step h b h' b'"
proof (cases st)
  case Unallocated
  with assms show ?thesis
    by (auto simp: bucket_delete_def local_step_refl dest: bucket_state_UnallocatedD)
next
  case Freed
  with assms(2) have "delete_loop h b key 0 = Inr (h, b)"
    by (intro delete_loop_done [where st = Freed]) simp_all
  with assms Freed show ?thesis
    by (simp add: bucket_delete_def local_step_refl)
next
  case (Live es)
  with assms(2) have alloc: "items b \<noteq> None"
    by (auto elim: bucket_state_LiveE)
  show ?thesis
  proof (cases "match_index key es")
    case None
    with assms Live alloc show ?thesis
      by (simp add: bucket_delete_def delete_loop_miss local_step_refl)
  next
    case (Some j)
    with assms Live alloc delete_loop_hit [of h b es key j 0] show ?thesis
      by (auto simp: bucket_delete_def)
  qed
qed

section \<open>The scan of the specification\<close>

text \<open>
  The specification lets the scan of a delete stop at the first match, where the
  source goes on to the end of the bucket with the decremented count.
\<close>

function delete_first :: "heap \<Rightarrow> bucket_t \<Rightarrow> double \<Rightarrow> u32 \<Rightarrow> (heap \<times> bucket_t) result" where
  "delete_first h bucket key i =
     (if i < itemCount bucket
      then bindE (load h (items bucket) (item_key i)) (\<lambda>k.
             if double_eq k key then delete_at h bucket i
             else delete_first h bucket key (i + 1))
      else Inr (h, bucket))"
  by pat_completeness auto
termination
  by (relation "measure (\<lambda>(h, bucket, key, i). unat (itemCount bucket) - unat i)")
    (auto intro: loop_measure_less)

declare delete_first.simps [simp del]

lemma delete_loop_after_match:
  assumes "heap_ok h" "bucket_state h b = Some (Live es)" "uniq_keys es" "i < itemCount b"
    "double_eq (fst (es ! unat i)) key"
  shows "bindE (delete_at h b i) (\<lambda>(h', b'). delete_loop h' b' key (i + 1)) = delete_at h b i"
proof -
  let ?st = "if length es = 1 then Freed else Live (remove_at es (unat i))"
  from assms(1,2,4) obtain h' b' where del: "delete_at h b i = Inr (h', b')"
    "bucket_state h' b' = Some ?st"
    using delete_at_Live [of h b es i] by auto
  from assms(2,4) have "unat i < length es"
    by (simp add: bucket_state_Live_length word_less_nat_alt)
  with assms(3,5) have "match_index key es = Some (unat i)"
    by (intro lookup_hit(1))
  with assms(3) have "match_index key (entries ?st) = None"
    by (simp add: match_index_remove_at)
  with del(2) have "delete_loop h' b' key (i + 1) = Inr (h', b')"
    by (rule delete_loop_done)
  with del(1) show ?thesis
    by simp
qed

text \<open>
  \<^bold>\<open>C29\<close> On a well-formed bucket the scan of the source, which continues after a
  match, does what the scan of the specification does, which stops there: the keys of a
  bucket are pairwise different, so nothing matches after the first match.
\<close>

theorem delete_loop_early_exit:
  assumes "heap_ok h" "bucket_state h b = Some st" "bstate_ok st"
  shows "delete_loop h b key i = delete_first h b key i"
proof (cases st)
  case (Live es)
  with assms have live: "bucket_state h b = Some (Live es)" and uniq: "uniq_keys es"
    by simp_all
  show ?thesis
  proof (induction i rule: word_nat_induct_up [where c = "itemCount b"])
    case (stop i)
    then show ?case
      by (simp add: delete_loop.simps [of h b key i] delete_first.simps [of h b key i])
  next
    case (step i)
    show ?case
    proof (cases "double_eq (fst (es ! unat i)) key")
      case True
      with assms(1) live uniq step.hyps show ?thesis
        by (subst delete_loop.simps, subst delete_first.simps)
          (simp add: live_load_key delete_loop_after_match)
    next
      case False
      with live step show ?thesis
        by (subst delete_loop.simps, subst delete_first.simps) (simp add: live_load_key)
    qed
  qed
next
  case Unallocated
  with assms(2) have "\<not> i < itemCount b"
    by (auto dest: bucket_state_UnallocatedD)
  then show ?thesis
    by (simp add: delete_loop.simps [of h b key i] delete_first.simps [of h b key i])
next
  case Freed
  with assms(2) have "\<not> i < itemCount b"
    by (auto dest: bucket_state_FreedD)
  then show ?thesis
    by (simp add: delete_loop.simps [of h b key i] delete_first.simps [of h b key i])
qed

theorem delete_loop_early_exit_witness:
  "delete_loop
     \<lparr>blocks = [0 \<mapsto> \<lparr>bsize = 128, cells = Some 3 # Some 4 # Some 5 # Some 6 # replicate 12 (Some 0)\<rparr>],
       next_addr = 1, avail = 0\<rparr>
     \<lparr>items = Some 0, blength = 8, itemCount = 2\<rparr> 3 0 =
   delete_first
     \<lparr>blocks = [0 \<mapsto> \<lparr>bsize = 128, cells = Some 3 # Some 4 # Some 5 # Some 6 # replicate 12 (Some 0)\<rparr>],
       next_addr = 1, avail = 0\<rparr>
     \<lparr>items = Some 0, blength = 8, itemCount = 2\<rparr> 3 0"
proof -
  let ?blk = "\<lparr>bsize = 128, cells = Some 3 # Some 4 # Some 5 # Some 6 # replicate 12 (Some 0)\<rparr>"
  let ?h = "\<lparr>blocks = [0 \<mapsto> ?blk], next_addr = 1, avail = 0\<rparr>"
  let ?b = "\<lparr>items = Some 0, blength = 8, itemCount = 2\<rparr>"
  have "slots_ok ?blk 2"
    by (simp add: slots_ok_def)
  then have "live_ok ?b ?blk"
    by (simp add: live_ok_def HASHMAP_BUCKET_INITSIZE_def sizeof_bucketItem_t_def)
  moreover have "entries_of ?blk 2 = [(3, 4), (5, 6)]"
    by code_simp
  ultimately have st: "bucket_state ?h ?b = Some (Live [(3, 4), (5, 6)])"
    by (simp add: bucket_state_def)
  have h: "heap_ok ?h"
    by (simp add: heap_ok_def)
  have ok: "bstate_ok (Live [(3, 4), (5, 6)])"
    by (simp add: capacity_def double_eq_def is_nan_def is_zero_def)
  from h st ok show ?thesis
    by (rule delete_loop_early_exit)
qed

end
