(* ===== verification/Hashmap_Correct.thy ===== *)
theory Hashmap_Correct
  imports Hashmap Bucket_Correct
begin

text \<open>
  The table as a whole: the invariant \<open>table_inv\<close> that \<open>hashmapCreate\<close>
  establishes and every call that returns keeps, the state of the table as
  one list state per bucket (\<open>table_state\<close>), and the three operations
  against the list specification of the bucket the key selects.
\<close>

section \<open>The invariant\<close>

text \<open>
  A bucket is well formed in a heap: it has a state, the state is one that can
  arise, and its item pointer, if set, was handed out by the allocator.
\<close>

definition bucket_ok :: "heap \<Rightarrow> bucket_t \<Rightarrow> bool" where
  "bucket_ok h b \<longleftrightarrow>
     (case bucket_state h b of None \<Rightarrow> False | Some st \<Rightarrow> bstate_ok st) \<and>
     (case items b of None \<Rightarrow> True | Some a \<Rightarrow> a < next_addr h)"

text \<open>No two buckets share an item array.\<close>

definition separate :: "bucket_t list \<Rightarrow> bool" where
  "separate bs \<longleftrightarrow>
     (\<forall>i < length bs. \<forall>j < length bs. i \<noteq> j \<longrightarrow> items (bs ! i) \<noteq> None \<longrightarrow>
        items (bs ! i) \<noteq> items (bs ! j))"

definition table_inv :: "state \<Rightarrow> bool" where
  "table_inv s \<longleftrightarrow>
     heap_ok (mem s) \<and>
     (case buckets (tbl s) of
        None \<Rightarrow> False
      | Some bs \<Rightarrow>
          length bs = unat (HASHMAP_BUCKET_MASK + 1) \<and> list_all (bucket_ok (mem s)) bs \<and>
          separate bs)"

text \<open>The state of bucket \<open>i\<close> of the table.\<close>

definition table_state :: "state \<Rightarrow> nat \<Rightarrow> bstate" where
  "table_state s i =
     (case buckets (tbl s) of
        None \<Rightarrow> Unallocated
      | Some bs \<Rightarrow>
          if i < length bs
          then (case bucket_state (mem s) (bs ! i) of None \<Rightarrow> Unallocated | Some st \<Rightarrow> st)
          else Unallocated)"

text \<open>The bucket a key selects when shifts take their count modulo 32.\<close>

definition bucket_of :: "double \<Rightarrow> nat" where
  "bucket_of key = unat (hash_ref key AND HASHMAP_BUCKET_MASK)"

lemmas table_inv_defs [inv_defs] = table_inv_def bucket_ok_def separate_def

subsection \<open>Reading the invariant\<close>

lemma bucket_index_Masked [simp]: "bucket_index Masked key = Inr (bucket_of key)"
  by (simp add: bucket_index_def bucket_of_def hashFunction_Masked)

lemma bucket_index_ISO_C [simp]: "bucket_index ISO_C key = Inl UndefinedShift"
  by (simp add: bucket_index_def hashFunction_ISO_C)

lemma bucket_of_less: "bucket_of key < 65536"
proof -
  have "hash_ref key AND 0xFFFF \<le> 0xFFFF"
    by (rule word_and_le1)
  then show ?thesis
    by (simp add: bucket_of_def HASHMAP_BUCKET_MASK_def word_le_nat_alt)
qed

lemma table_invE:
  assumes "table_inv s"
  obtains bs where "buckets (tbl s) = Some bs" "length bs = 65536" "heap_ok (mem s)"
    "\<And>i. i < 65536 \<Longrightarrow> bucket_ok (mem s) (bs ! i)" "separate bs"
  using assms
  by (auto simp: table_inv_def HASHMAP_BUCKET_MASK_def list_all_length split: option.splits)

lemma bucket_okE:
  assumes "bucket_ok h b"
  obtains st where "bucket_state h b = Some st" "bstate_ok st"
    "\<And>a. items b = Some a \<Longrightarrow> a < next_addr h"
  using assms by (auto simp: bucket_ok_def split: option.splits)

lemma bucket_okI:
  "bucket_state h b = Some st \<Longrightarrow> bstate_ok st \<Longrightarrow> (\<And>a. items b = Some a \<Longrightarrow> a < next_addr h) \<Longrightarrow>
     bucket_ok h b"
  by (auto simp: bucket_ok_def split: option.splits)

lemma separateD:
  "separate bs \<Longrightarrow> i < length bs \<Longrightarrow> j < length bs \<Longrightarrow> i \<noteq> j \<Longrightarrow>
     items (bs ! i) = items (bs ! j) \<Longrightarrow> items (bs ! i) = None"
  unfolding separate_def by blast

lemma table_inv_bucket:
  assumes "table_inv s"
  obtains bs st where "buckets (tbl s) = Some bs" "length bs = 65536"
    "get_bucket (tbl s) (bucket_of key) = Inr (bs ! bucket_of key)"
    "bucket_state (mem s) (bs ! bucket_of key) = Some st" "bstate_ok st"
    "table_state s (bucket_of key) = st"
proof -
  from assms obtain bs where bs: "buckets (tbl s) = Some bs" "length bs = 65536"
    "bucket_ok (mem s) (bs ! bucket_of key)"
    by (auto elim!: table_invE simp: bucket_of_less)
  from bs(3) obtain st where "bucket_state (mem s) (bs ! bucket_of key) = Some st" "bstate_ok st"
    by (rule bucket_okE)
  with bs show ?thesis
    by (intro that [of bs st]) (simp_all add: get_bucket_def table_state_def bucket_of_less)
qed

section \<open>Creation\<close>

lemma hashmapCreate_ok:
  assumes "heap_ok h" "sizeof_hashmap_t + 65536 * sizeof_bucket_t \<le> avail h"
  shows "\<exists>s. hashmapCreate h = Inr s \<and> table_inv s \<and> table_state s = (\<lambda>i. Unallocated) \<and>
           hm_itemCount (tbl s) = 0 \<and> avail (mem s) = avail h - 1048592"
proof -
  let ?b = "\<lparr>items = None, blength = 0, itemCount = 0\<rparr>"
  obtain h1 p where h1: "calloc h 1 sizeof_hashmap_t = (h1, p)"
    by (cases "calloc h 1 sizeof_hashmap_t")
  obtain h2 q where h2: "calloc h1 65536 sizeof_bucket_t = (h2, q)"
    by (cases "calloc h1 65536 sizeof_bucket_t")
  let ?s = "\<lparr>mem = h2, tbl = \<lparr>buckets = Some (replicate 65536 ?b), hm_itemCount = 0\<rparr>\<rparr>"
  from assms(2) h1 h2 have ptrs: "p \<noteq> None" "q \<noteq> None" "avail h2 = avail h - 1048592"
    by (auto simp: calloc_def alloc_def sizeof_hashmap_t_def sizeof_bucket_t_def split: if_splits)
  with h1 h2 have created: "hashmapCreate h = Inr ?s"
    by (auto simp: hashmapCreate_def HASHMAP_BUCKET_MASK_def)
  from assms(1) h1 h2 have "heap_ok h2"
    using heap_ok_alloc [of h "1 * sizeof_hashmap_t" "Some 0"]
      heap_ok_alloc [of h1 "65536 * sizeof_bucket_t" "Some 0"]
    by (simp add: calloc_def)
  moreover have "bucket_state h2 ?b = Some Unallocated"
    by (simp add: bucket_state_def)
  then have "bucket_ok h2 ?b"
    by (simp add: bucket_ok_def)
  ultimately have "table_inv ?s"
    by (simp add: table_inv_def HASHMAP_BUCKET_MASK_def separate_def list_all_length)
  moreover have "table_state ?s = (\<lambda>i. Unallocated)"
    by (auto simp: table_state_def bucket_state_def)
  ultimately show ?thesis
    using created ptrs(3) by simp
qed

text \<open>The three ways a creation can go, by the memory there is.\<close>

lemma hashmapCreate_cases [case_names no_table no_buckets created]:
  obtains "avail h < sizeof_hashmap_t" "hashmapCreate h = Inl NullDeref"
  | s where "sizeof_hashmap_t \<le> avail h" "avail h < sizeof_hashmap_t + 65536 * sizeof_bucket_t"
      "hashmapCreate h = Inr s" "buckets (tbl s) = None" "hm_itemCount (tbl s) = 0"
  | "sizeof_hashmap_t + 65536 * sizeof_bucket_t \<le> avail h"
proof -
  consider "avail h < 16" | "16 \<le> avail h" "avail h < 1048592" | "1048592 \<le> avail h"
    by linarith
  then show ?thesis
  proof cases
    case 1
    then show ?thesis
      by (intro that(1))
        (simp_all add: hashmapCreate_def calloc_def alloc_def sizeof_hashmap_t_def)
  next
    case 2
    then show ?thesis
      by (intro that(2))
        (auto simp: hashmapCreate_def calloc_def alloc_def sizeof_hashmap_t_def
          sizeof_bucket_t_def HASHMAP_BUCKET_MASK_def)
  next
    case 3
    then show ?thesis
      by (intro that(3)) (simp add: sizeof_hashmap_t_def sizeof_bucket_t_def)
  qed
qed

section \<open>A step on one bucket\<close>

text \<open>
  What every operation does to the table: it replaces one bucket by the result
  of a step that is local to it. Such a step keeps the invariant and changes
  the state of no other bucket.
\<close>

lemma local_step_other:
  assumes "local_step h b h' b'" "bucket_ok h c" "items c \<noteq> items b \<or> items c = None"
  shows "bucket_state h' c = bucket_state h c" "bucket_ok h' c"
proof -
  have eq: "blocks h' a = blocks h a" if "items c = Some a" for a
    using that assms by (auto simp: local_step_def bucket_ok_def)
  then show "bucket_state h' c = bucket_state h c"
    by (rule bucket_state_cong)
  with assms(1,2) show "bucket_ok h' c"
    by (auto simp: bucket_ok_def local_step_def split: option.splits)
qed

lemma separate_update:
  assumes "separate bs" "i < length bs"
    "\<And>l. l < length bs \<Longrightarrow> l \<noteq> i \<Longrightarrow> items b' \<noteq> None \<Longrightarrow> items b' \<noteq> items (bs ! l)"
  shows "separate (bs[i := b'])"
  unfolding separate_def
proof (intro allI impI)
  fix j k assume jk: "j < length (bs[i := b'])" "k < length (bs[i := b'])" "j \<noteq> k"
    "items (bs[i := b'] ! j) \<noteq> None"
  with assms(2) assms(3) [of k] assms(3) [of j] separateD [OF assms(1), of j k]
  show "items (bs[i := b'] ! j) \<noteq> items (bs[i := b'] ! k)"
    by (cases "j = i"; cases "k = i") auto
qed

lemma table_step:
  assumes inv: "table_inv s" and bs: "buckets (tbl s) = Some bs" and i: "i < length bs"
    and step: "local_step (mem s) (bs ! i) h' b'"
    and st': "bucket_state h' b' = Some st'" "bstate_ok st'"
  shows "table_inv \<lparr>mem = h', tbl = set_bucket (tbl s) i b'\<rparr>"
    and "table_state \<lparr>mem = h', tbl = set_bucket (tbl s) i b'\<rparr> = (table_state s)(i := st')"
proof -
  let ?h = "mem s" and ?s' = "\<lparr>mem = h', tbl = set_bucket (tbl s) i b'\<rparr>"
  from inv bs have len: "length bs = 65536" and ok: "\<And>j. j < 65536 \<Longrightarrow> bucket_ok ?h (bs ! j)"
    and sep: "separate bs"
    by (auto elim!: table_invE)
  have other: "bucket_state h' (bs ! j) = bucket_state ?h (bs ! j)" "bucket_ok h' (bs ! j)"
    if "j < 65536" "j \<noteq> i" for j
  proof -
    from sep that i len have "items (bs ! j) \<noteq> items (bs ! i) \<or> items (bs ! j) = None"
      by (auto dest: separateD [of bs j i])
    with step ok [OF that(1)]
    show "bucket_state h' (bs ! j) = bucket_state ?h (bs ! j)" "bucket_ok h' (bs ! j)"
      by (rule local_step_other)+
  qed
  have bound: "a < next_addr h'" if "items b' = Some a" for a
    using that step ok [of i] i len
    by (auto simp: local_step_def bucket_ok_def split: option.splits)
  with st' have "bucket_ok h' b'"
    by (intro bucket_okI)
  with other(2) len have "bucket_ok h' (bs[i := b'] ! j)" if "j < 65536" for j
    using that by (cases "j = i") simp_all
  moreover have "items b' \<noteq> items (bs ! l)" if "l < length bs" "l \<noteq> i" "items b' \<noteq> None" for l
    using that step ok [of l] i len separateD [OF sep, of i l]
    by (auto simp: local_step_def bucket_ok_def split: option.splits)
  with sep i have "separate (bs[i := b'])"
    by (rule separate_update)
  moreover from step have "heap_ok h'"
    by (simp add: local_step_def)
  ultimately show "table_inv ?s'"
    using bs len by (simp add: table_inv_def set_bucket_def list_all_length HASHMAP_BUCKET_MASK_def)
  show "table_state ?s' = (table_state s)(i := st')"
  proof
    fix j
    from bs i len st' other(1) [of j] show "table_state ?s' j = ((table_state s)(i := st')) j"
      by (cases "j = i") (simp_all add: table_state_def set_bucket_def)
  qed
qed

section \<open>The operations on a well-formed table\<close>

text \<open>
  The three operations as rules for reasoning about a call: what is known of
  the result when the table is well formed.
\<close>

lemma read_eq:
  assumes "table_inv s"
  shows "hashmapRead Masked s key = Inr (abs_read (table_state s (bucket_of key)) key)"
proof -
  from assms obtain bs st where "get_bucket (tbl s) (bucket_of key) = Inr (bs ! bucket_of key)"
    "bucket_state (mem s) (bs ! bucket_of key) = Some st" "table_state s (bucket_of key) = st"
    by (rule table_inv_bucket)
  then show ?thesis
    by (simp add: hashmapRead_def bucket_read_correct)
qed

lemma delete_step:
  assumes "table_inv s"
  obtains s' where "hashmapDelete Masked s key = Inr s'" "table_inv s'"
    "table_state s' =
       (table_state s)(bucket_of key := abs_delete (table_state s (bucket_of key)) key)"
    "hm_itemCount (tbl s') = hm_itemCount (tbl s)"
proof -
  let ?i = "bucket_of key"
  from assms obtain bs st where b: "buckets (tbl s) = Some bs" "length bs = 65536"
    "get_bucket (tbl s) ?i = Inr (bs ! ?i)" "bucket_state (mem s) (bs ! ?i) = Some st"
    "bstate_ok st" "table_state s ?i = st"
    by (rule table_inv_bucket)
  from assms have "heap_ok (mem s)"
    by (rule table_invE)
  with b obtain h' b' where del: "bucket_delete (mem s) (bs ! ?i) key = Inr (h', b')"
    "bucket_state h' b' = Some (abs_delete st key)" "local_step (mem s) (bs ! ?i) h' b'"
    using bucket_delete_correct [of "mem s" "bs ! ?i" st key] by auto
  from b(5) have "bstate_ok (abs_delete st key)"
    by (rule bstate_ok_abs_delete)
  with assms b(1,2) del(2,3) show ?thesis
    using table_step [of s bs ?i h' b' "abs_delete st key"]
    by (intro that [of "\<lparr>mem = h', tbl = set_bucket (tbl s) ?i b'\<rparr>"])
      (simp_all add: hashmapDelete_def b(3,6) del(1) bucket_of_less set_bucket_def)
qed

lemma write_step [case_names undefined returns]:
  assumes "table_inv s" "\<not> double_eq key val"
  obtains e where "abs_write (room (mem s)) (table_state s (bucket_of key)) key val = Inl e"
      "hashmapWrite Masked s key val = Inl e"
  | st' s' where "abs_write (room (mem s)) (table_state s (bucket_of key)) key val = Inr st'"
      "hashmapWrite Masked s key val = Inr s'" "table_inv s'"
      "table_state s' = (table_state s)(bucket_of key := st')"
      "hm_itemCount (tbl s') = hm_itemCount (tbl s)"
proof -
  let ?i = "bucket_of key"
  from assms(1) obtain bs st where b: "buckets (tbl s) = Some bs" "length bs = 65536"
    "get_bucket (tbl s) ?i = Inr (bs ! ?i)" "bucket_state (mem s) (bs ! ?i) = Some st"
    "bstate_ok st" "table_state s ?i = st"
    by (rule table_inv_bucket)
  from assms(1) have "heap_ok (mem s)"
    by (rule table_invE)
  then have wr: "case abs_write (room (mem s)) st key val of
      Inl e \<Rightarrow> bucket_write (mem s) (bs ! ?i) key val = Inl e
    | Inr st' \<Rightarrow> (\<exists>h' b'. bucket_write (mem s) (bs ! ?i) key val = Inr (h', b') \<and>
         bucket_state h' b' = Some st' \<and> local_step (mem s) (bs ! ?i) h' b')"
    using b(4) by (rule bucket_write_correct)
  show ?thesis
  proof (cases "abs_write (room (mem s)) st key val")
    case (Inl e)
    with wr assms(2) b(3,6) show ?thesis
      by (intro that(1) [of e]) (simp_all add: hashmapWrite_def)
  next
    case (Inr st')
    with wr obtain h' b' where w: "bucket_write (mem s) (bs ! ?i) key val = Inr (h', b')"
      "bucket_state h' b' = Some st'" "local_step (mem s) (bs ! ?i) h' b'"
      by auto
    from b(5) Inr have "bstate_ok st'"
      by (rule bstate_ok_abs_write)
    with assms b(1,2) w(2,3) Inr show ?thesis
      using table_step [of s bs ?i h' b' st']
      by (intro that(2) [of st' "\<lparr>mem = h', tbl = set_bucket (tbl s) ?i b'\<rparr>"])
        (simp_all add: hashmapWrite_def b(3,6) w(1) bucket_of_less set_bucket_def)
  qed
qed

lemma write_equal: "double_eq key val \<Longrightarrow> hashmapWrite sem s key val = hashmapDelete sem s key"
  by (simp add: hashmapWrite_def)

section \<open>A table to exercise the operations on\<close>

text \<open>
  The table \<open>hashmapCreate\<close> returns on an empty heap with a budget of 2 MiB, two
  keys (3.14 and 2.71 as bit patterns), and the table after the first is written with
  the second as its value.
\<close>

definition fresh :: state where
  "fresh = \<lparr>mem = \<lparr>blocks = [0 \<mapsto> \<lparr>bsize = 16, cells = replicate 2 (Some 0)\<rparr>,
                                1 \<mapsto> \<lparr>bsize = 1048576, cells = replicate 131072 (Some 0)\<rparr>],
                     next_addr = 2, avail = 1048560\<rparr>,
            tbl = \<lparr>buckets = Some (replicate 65536 \<lparr>items = None, blength = 0, itemCount = 0\<rparr>),
                   hm_itemCount = 0\<rparr>\<rparr>"

definition k1 :: double where "k1 = 0x40091EB851EB851F"
definition k2 :: double where "k2 = 0x4005AE147AE147AE"

lemma fresh_created: "hashmapCreate (empty_heap 2097152) = Inr fresh"
  by (simp add: hashmapCreate_def calloc_def alloc_def empty_heap_def fresh_def
      HASHMAP_BUCKET_MASK_def sizeof_hashmap_t_def sizeof_bucket_t_def)

lemma fresh_inv [simp]: "table_inv fresh"
  using hashmapCreate_ok [of "empty_heap 2097152"]
  by (simp add: fresh_created sizeof_hashmap_t_def sizeof_bucket_t_def)

lemma fresh_state [simp]: "table_state fresh = (\<lambda>i. Unallocated)"
  using hashmapCreate_ok [of "empty_heap 2097152"]
  by (simp add: fresh_created sizeof_hashmap_t_def sizeof_bucket_t_def)

lemma fresh_room [simp]: "room (mem fresh)"
  by (simp add: room_def fresh_def HASHMAP_BUCKET_INITSIZE_def sizeof_bucketItem_t_def)

lemma keys_differ [simp]: "\<not> double_eq k1 k2" "\<not> is_nan k1" "\<not> is_nan k2"
  by (simp_all add: double_eq_def is_nan_def is_zero_def k1_def k2_def)

lemma fresh_write:
  assumes "\<not> double_eq k v"
  obtains s where "hashmapWrite Masked fresh k v = Inr s" "table_inv s"
    "table_state s = (\<lambda>i. Unallocated)(bucket_of k := Live [(k, v)])"
  using fresh_inv assms by (cases rule: write_step [of fresh k v]) simp_all

lemmas fresh_written = fresh_write [OF keys_differ(1)]

section \<open>Refinement of the list specification\<close>

text \<open>
  \<^bold>\<open>C1\<close> In a well-formed table \<open>hashmapWrite\<close> of a value that differs from the
  key does to the bucket the key selects what \<open>abs_write\<close> says: it is undefined
  with the same error where \<open>abs_write\<close> fails, and otherwise returns a well-formed
  table in which that bucket holds the specified entries and every other bucket is as
  before.
\<close>

theorem hashmapWrite_correct:
  assumes "table_inv s" "\<not> double_eq key val"
  shows "case abs_write (room (mem s)) (table_state s (bucket_of key)) key val of
           Inl e \<Rightarrow> hashmapWrite Masked s key val = Inl e
         | Inr st' \<Rightarrow>
             (\<exists>s'. hashmapWrite Masked s key val = Inr s' \<and> table_inv s' \<and>
                table_state s' = (table_state s)(bucket_of key := st'))"
  using assms by (cases rule: write_step [of s key val]) simp_all

theorem hashmapWrite_correct_witness:
  "\<exists>s'. hashmapWrite Masked fresh k1 k2 = Inr s' \<and>
      table_state s' = (\<lambda>i. Unallocated)(bucket_of k1 := Live [(k1, k2)])"
  using hashmapWrite_correct [of fresh k1 k2] by auto

text \<open>
  \<^bold>\<open>C3\<close> In a well-formed table \<open>hashmapRead\<close> returns, and returns what the
  list specification reads from the bucket the key selects: the value of the first
  entry whose key compares equal to the key, and the key itself if there is none.
\<close>

theorem hashmapRead_correct:
  "table_inv s \<Longrightarrow>
     hashmapRead Masked s key =
       Inr (case table_state s (bucket_of key) of Live es \<Rightarrow> lookup es key | _ \<Rightarrow> key)"
  by (cases "table_state s (bucket_of key)") (simp_all add: read_eq)

theorem hashmapRead_correct_witness:
  "\<exists>s. hashmapWrite Masked fresh k1 k2 = Inr s \<and> hashmapRead Masked s k1 = Inr k2"
proof -
  obtain s where s: "hashmapWrite Masked fresh k1 k2 = Inr s" "table_inv s"
    "table_state s = (\<lambda>i. Unallocated)(bucket_of k1 := Live [(k1, k2)])"
    by (rule fresh_written)
  with hashmapRead_correct [of s k1] show ?thesis
    by simp
qed

text \<open>
  \<^bold>\<open>C2\<close> In a well-formed table \<open>hashmapDelete\<close> returns a well-formed table in
  which the bucket the key selects is as \<open>abs_delete\<close> leaves it and every other
  bucket is as before.
\<close>

theorem hashmapDelete_correct:
  assumes "table_inv s"
  shows "\<exists>s'. hashmapDelete Masked s key = Inr s' \<and> table_inv s' \<and>
           table_state s' =
             (table_state s)(bucket_of key := abs_delete (table_state s (bucket_of key)) key)"
  using assms by (rule delete_step [of s key]) simp

theorem hashmapDelete_correct_witness:
  "\<exists>s s'. hashmapWrite Masked fresh k1 k2 = Inr s \<and> hashmapDelete Masked s k1 = Inr s' \<and>
      table_state s' = (\<lambda>i. Unallocated)(bucket_of k1 := Freed)"
proof -
  obtain s where s: "hashmapWrite Masked fresh k1 k2 = Inr s" "table_inv s"
    "table_state s = (\<lambda>i. Unallocated)(bucket_of k1 := Live [(k1, k2)])"
    by (rule fresh_written)
  with hashmapDelete_correct [of s k1] show ?thesis
    by auto
qed

text \<open>
  \<^bold>\<open>C5\<close> On a well-formed heap with room for the table (16 bytes for the
  \<open>hashmap_t\<close> and 65536 times 16 for the buckets) \<open>hashmapCreate\<close> returns a
  well-formed table all of whose buckets are unallocated, with item count 0.
\<close>

theorem hashmapCreate_correct:
  assumes "heap_ok h" "sizeof_hashmap_t + 65536 * sizeof_bucket_t \<le> avail h"
  shows "\<exists>s. hashmapCreate h = Inr s \<and> table_inv s \<and> table_state s = (\<lambda>i. Unallocated) \<and>
           hm_itemCount (tbl s) = 0"
  using hashmapCreate_ok [OF assms] by auto

theorem hashmapCreate_correct_witness:
  "\<exists>s. hashmapCreate (empty_heap 2097152) = Inr s \<and> table_state s = (\<lambda>i. Unallocated) \<and>
      hm_itemCount (tbl s) = 0"
  using hashmapCreate_correct [of "empty_heap 2097152"]
  by (auto simp: sizeof_hashmap_t_def sizeof_bucket_t_def)

section \<open>Bounds\<close>



end
