(* ===== verification/Table_Laws.thy ===== *)
theory Table_Laws
  imports Hashmap_Correct
begin

text \<open>
  What a client of the table can rely on, derived from the refinement of
  \<open>Hashmap_Correct\<close>: the table as a function from keys to values (\<open>view\<close>),
  what a write and a delete do to that function, and the laws of reading after
  writing and deleting that the specification lists.
\<close>

section \<open>The table as a function\<close>

text \<open>
  What a well-formed table returns for a key. The key itself stands for
  absence, as in the source.
\<close>

definition view :: "state \<Rightarrow> double \<Rightarrow> double" where
  "view s key = abs_read (table_state s (bucket_of key)) key"

lemma read_view: "table_inv s \<Longrightarrow> hashmapRead Masked s key = Inr (view s key)"
  by (simp add: read_eq view_def)

lemma table_state_ok:
  assumes "table_inv s"
  shows "bstate_ok (table_state s i)"
proof (cases "i < 65536")
  case True
  from assms obtain bs where bs: "buckets (tbl s) = Some bs" "length bs = 65536"
    "bucket_ok (mem s) (bs ! i)"
    using True by (auto elim!: table_invE)
  from bs(3) obtain st where "bucket_state (mem s) (bs ! i) = Some st" "bstate_ok st"
    by (rule bucket_okE)
  with bs True show ?thesis
    by (simp add: table_state_def)
next
  case False
  with assms show ?thesis
    by (auto elim!: table_invE simp: table_state_def)
qed

lemma view_fresh [simp]: "view fresh k = k"
  by (simp add: view_def)

text \<open>No NaN is ever found: it compares unequal to every key, itself included.\<close>

lemma view_nan [simp]: "is_nan k \<Longrightarrow> view s k = k"
  by (cases "table_state s (bucket_of k)") (simp_all add: view_def lookup_def)

text \<open>The keys a write or a delete of \<open>k\<close> concerns.\<close>

definition same_key :: "double \<Rightarrow> double \<Rightarrow> bool" where
  "same_key k k' \<longleftrightarrow> double_eq k k' \<and> bucket_of k' = bucket_of k"

lemma same_key_refl [simp]: "same_key k k \<longleftrightarrow> \<not> is_nan k"
  by (simp add: same_key_def)

lemma view_write:
  assumes "table_state s' = (table_state s)(bucket_of k := st')"
    "abs_write r (table_state s (bucket_of k)) k v = Inr st'"
  shows "view s' k' = (if same_key k k' then v else view s k')"
proof (cases "bucket_of k' = bucket_of k")
  case True
  with assms show ?thesis
    by (auto simp: view_def same_key_def abs_read_abs_write_same abs_read_abs_write_other)
next
  case False
  with assms(1) show ?thesis
    by (simp add: view_def same_key_def)
qed

lemma view_delete:
  assumes "table_state s' = (table_state s)(bucket_of k := abs_delete (table_state s (bucket_of k)) k)"
    "table_inv s"
  shows "view s' k' = (if same_key k k' then k' else view s k')"
proof (cases "bucket_of k' = bucket_of k")
  case True
  with assms table_state_ok [OF assms(2), of "bucket_of k"] show ?thesis
    by (auto simp: view_def same_key_def abs_read_abs_delete_same abs_read_abs_delete_other)
next
  case False
  with assms(1) show ?thesis
    by (simp add: view_def same_key_def)
qed

text \<open>A write that is known to have returned, and a delete.\<close>

lemma write_returned:
  assumes "table_inv s" "\<not> double_eq k v" "hashmapWrite Masked s k v = Inr s'"
  obtains st' where "abs_write (room (mem s)) (table_state s (bucket_of k)) k v = Inr st'"
    "table_state s' = (table_state s)(bucket_of k := st')" "table_inv s'"
    "\<And>k'. view s' k' = (if same_key k k' then v else view s k')"
    "hm_itemCount (tbl s') = hm_itemCount (tbl s)"
  using assms(1,2)
proof (cases rule: write_step [of s k v])
  case (undefined e)
  with assms(3) show ?thesis by simp
next
  case (returns st' s'')
  with assms(3) view_write [of s' s k st' _ v] show ?thesis
    by (intro that [of st']) simp_all
qed

lemma delete_returns:
  assumes "table_inv s"
  obtains s' where "hashmapDelete Masked s k = Inr s'" "table_inv s'"
    "table_state s' = (table_state s)(bucket_of k := abs_delete (table_state s (bucket_of k)) k)"
    "\<And>k'. view s' k' = (if same_key k k' then k' else view s k')"
    "hm_itemCount (tbl s') = hm_itemCount (tbl s)"
  using assms
proof (rule delete_step [of s k])
  fix s' assume s': "hashmapDelete Masked s k = Inr s'" "table_inv s'"
    "table_state s' = (table_state s)(bucket_of k := abs_delete (table_state s (bucket_of k)) k)"
    "hm_itemCount (tbl s') = hm_itemCount (tbl s)"
  with assms view_delete [of s' s k] show ?thesis
    by (intro that [of s']) simp_all
qed

text \<open>A delete of a key that is absent leaves the state as it is, pointers and memory included.\<close>

lemma delete_absent:
  assumes "table_inv s" "match_index k (entries (table_state s (bucket_of k))) = None"
  shows "hashmapDelete Masked s k = Inr s"
proof -
  let ?i = "bucket_of k"
  from assms(1) obtain bs st where b: "buckets (tbl s) = Some bs"
    "get_bucket (tbl s) ?i = Inr (bs ! ?i)" "bucket_state (mem s) (bs ! ?i) = Some st"
    "table_state s ?i = st"
    by (rule table_inv_bucket)
  with assms(2) have "delete_loop (mem s) (bs ! ?i) k 0 = Inr (mem s, bs ! ?i)"
    by (intro delete_loop_done [where st = st]) simp_all
  then have "bucket_delete (mem s) (bs ! ?i) k = Inr (mem s, bs ! ?i)"
    by (simp add: bucket_delete_def)
  with b show ?thesis
    by (simp add: hashmapDelete_def set_bucket_def)
qed

text \<open>A write of a key that is present overwrites, whatever the allocator has left.\<close>

lemma write_present:
  assumes "table_inv s" "\<not> double_eq k v" "table_state s (bucket_of k) = Live es"
    "match_index k es = Some j"
  obtains s' where "hashmapWrite Masked s k v = Inr s'" "table_inv s'"
    "table_state s' = (table_state s)(bucket_of k := Live (es[j := (fst (es ! j), v)]))"
  using assms(1,2) by (cases rule: write_step [of s k v]) (simp_all add: assms(3,4))

lemma fresh_written_view:
  obtains s where "hashmapWrite Masked fresh k1 k2 = Inr s" "table_inv s"
    "view s = (\<lambda>k'. if same_key k1 k' then k2 else k')"
proof -
  obtain s where s: "hashmapWrite Masked fresh k1 k2 = Inr s" "table_inv s"
    "table_state s = (table_state fresh)(bucket_of k1 := Live [(k1, k2)])"
    using fresh_written by auto
  from s(3) have "view s k' = (if same_key k1 k' then k2 else view fresh k')" for k'
    by (rule view_write [where r = True]) simp
  with s(1,2) show ?thesis
    by (intro that [of s]) (simp_all add: fun_eq_iff)
qed

section \<open>The operations on the view\<close>

text \<open>
  \<^bold>\<open>C8\<close> A write that returns changes the function the table denotes at the keys
  that compare equal to the written key and select the same bucket, where it now
  gives the written value, and nowhere else. The result is a well-formed table again.
\<close>

theorem hashmapWrite_view:
  assumes "table_inv s" "\<not> double_eq k v" "hashmapWrite Masked s k v = Inr s'"
  shows "table_inv s' \<and> view s' = (\<lambda>k'. if same_key k k' then v else view s k')"
  using assms by (rule write_returned) (simp add: fun_eq_iff)

theorem hashmapWrite_view_witness:
  "\<exists>s'. hashmapWrite Masked fresh k1 k2 = Inr s' \<and>
      view s' = (\<lambda>k'. if same_key k1 k' then k2 else k')"
proof -
  obtain s where s: "hashmapWrite Masked fresh k1 k2 = Inr s"
    by (rule fresh_written)
  with hashmapWrite_view [of fresh k1 k2 s] show ?thesis
    by (simp cong: if_cong)
qed

text \<open>
  \<^bold>\<open>C9\<close> A delete returns, and changes the function the table denotes at the keys
  that compare equal to the deleted key and select the same bucket, which are absent
  afterwards, and nowhere else. The result is a well-formed table again.
\<close>

theorem hashmapDelete_view:
  assumes "table_inv s"
  shows "\<exists>s'. hashmapDelete Masked s k = Inr s' \<and> table_inv s' \<and>
           view s' = (\<lambda>k'. if same_key k k' then k' else view s k')"
  using assms by (rule delete_returns [of s k]) (auto simp: fun_eq_iff)

theorem hashmapDelete_view_witness:
  "\<exists>s s'. hashmapWrite Masked fresh k1 k2 = Inr s \<and> hashmapDelete Masked s k1 = Inr s' \<and>
      view s k1 = k2 \<and> view s' = (\<lambda>k'. k')"
proof -
  obtain s where s: "hashmapWrite Masked fresh k1 k2 = Inr s" "table_inv s"
    "view s = (\<lambda>k'. if same_key k1 k' then k2 else k')"
    by (rule fresh_written_view)
  with hashmapDelete_view [of s k1] show ?thesis
    by (auto simp: fun_eq_iff)
qed

section \<open>The laws of the specification\<close>

text \<open>
  \<^bold>\<open>C7\<close> Read after write: in a well-formed table, after a write of a value that
  differs from the key has returned, a read of the key returns the value, provided the
  key is not a NaN.
\<close>

theorem read_after_write:
  assumes "table_inv s" "\<not> double_eq k v" "\<not> is_nan k" "hashmapWrite Masked s k v = Inr s'"
  shows "hashmapRead Masked s' k = Inr v"
  using assms(1,2,4) by (rule write_returned) (simp add: read_view assms(3))

theorem read_after_write_witness:
  "\<exists>s'. hashmapWrite Masked fresh k1 k2 = Inr s' \<and> hashmapRead Masked s' k1 = Inr k2"
proof -
  obtain s where "hashmapWrite Masked fresh k1 k2 = Inr s"
    by (rule fresh_written)
  with read_after_write [of fresh k1 k2 s] show ?thesis
    by simp
qed

text \<open>
  \<^bold>\<open>C18\<close> Absence echo: a read of any key in a newly created table returns the key.
\<close>

theorem absence_echo:
  assumes "heap_ok h" "sizeof_hashmap_t + 65536 * sizeof_bucket_t \<le> avail h"
  shows "\<exists>s. hashmapCreate h = Inr s \<and> hashmapRead Masked s k = Inr k"
proof -
  from hashmapCreate_ok [OF assms] obtain s where "hashmapCreate h = Inr s" "table_inv s"
    "table_state s = (\<lambda>i. Unallocated)"
    by auto
  then show ?thesis
    by (simp add: read_eq)
qed

theorem absence_echo_witness:
  "\<exists>s. hashmapCreate (empty_heap 2097152) = Inr s \<and> hashmapRead Masked s k1 = Inr k1"
  using absence_echo [of "empty_heap 2097152" k1]
  by (simp add: sizeof_hashmap_t_def sizeof_bucket_t_def)

text \<open>
  \<^bold>\<open>C15\<close> Read after delete: in a well-formed table a delete returns, and a read of
  the deleted key then returns the key.
\<close>

theorem read_after_delete:
  assumes "table_inv s"
  shows "\<exists>s'. hashmapDelete Masked s k = Inr s' \<and> hashmapRead Masked s' k = Inr k"
  using assms by (rule delete_returns [of s k]) (simp add: read_view)

theorem read_after_delete_witness:
  "\<exists>s s'. hashmapWrite Masked fresh k1 k2 = Inr s \<and> hashmapRead Masked s k1 = Inr k2 \<and>
      hashmapDelete Masked s k1 = Inr s' \<and> hashmapRead Masked s' k1 = Inr k1"
proof -
  obtain s where s: "hashmapWrite Masked fresh k1 k2 = Inr s" "table_inv s"
    "view s = (\<lambda>k'. if same_key k1 k' then k2 else k')"
    by (rule fresh_written_view)
  with read_after_delete [of s k1] show ?thesis
    by (auto simp: read_view)
qed

text \<open>
  \<^bold>\<open>C16\<close> Delete via equal write: a write of a value that compares equal to the key
  is the delete of the key, and a read of the key afterwards returns the key.
\<close>

theorem delete_via_equal_write:
  assumes "table_inv s" "double_eq k v"
  shows "\<exists>s'. hashmapWrite Masked s k v = Inr s' \<and> hashmapDelete Masked s k = Inr s' \<and>
           hashmapRead Masked s' k = Inr k"
  using assms(1) by (rule delete_returns [of s k]) (simp add: read_view write_equal assms(2))

theorem delete_via_equal_write_witness:
  "\<exists>s s'. hashmapWrite Masked fresh k1 k2 = Inr s \<and> hashmapWrite Masked s k1 k1 = Inr s' \<and>
      hashmapRead Masked s' k1 = Inr k1"
proof -
  obtain s where s: "hashmapWrite Masked fresh k1 k2 = Inr s" "table_inv s"
    by (rule fresh_written)
  with delete_via_equal_write [of s k1 k1] show ?thesis
    by auto
qed

text \<open>
  \<^bold>\<open>C10\<close> Overwrite: after a write of a key has returned, a second write of the
  same key with another value returns as well, whatever memory is left; a read then
  returns the second value, and the bucket has as many entries as before.
\<close>

theorem overwrite:
  assumes "table_inv s" "\<not> double_eq k v1" "\<not> double_eq k v2" "\<not> is_nan k"
    "hashmapWrite Masked s k v1 = Inr s1"
  shows "\<exists>s2. hashmapWrite Masked s1 k v2 = Inr s2 \<and> hashmapRead Masked s2 k = Inr v2 \<and>
           length (entries (table_state s2 (bucket_of k))) =
           length (entries (table_state s1 (bucket_of k)))"
proof -
  from assms(1,2,5) obtain st1 where st1:
    "abs_write (room (mem s)) (table_state s (bucket_of k)) k v1 = Inr st1"
    "table_state s1 = (table_state s)(bucket_of k := st1)" "table_inv s1"
    by (rule write_returned)
  from st1(1) assms(4) obtain es j where es: "st1 = Live es" "match_index k es = Some j"
    by (rule abs_write_match)
  with st1(2) have "table_state s1 (bucket_of k) = Live es"
    by simp
  with st1(3) assms(3) obtain s2 where s2: "hashmapWrite Masked s1 k v2 = Inr s2" "table_inv s2"
    "table_state s2 = (table_state s1)(bucket_of k := Live (es[j := (fst (es ! j), v2)]))"
    using es(2) by (rule write_present)
  from st1(3) assms(3) s2(1) have "hashmapRead Masked s2 k = Inr v2"
    by (rule write_returned) (simp add: read_view assms(4))
  with s2 es st1(2) show ?thesis
    by simp
qed

theorem overwrite_witness:
  "\<exists>s1 s2. hashmapWrite Masked fresh k1 k2 = Inr s1 \<and> hashmapWrite Masked s1 k1 0 = Inr s2 \<and>
      hashmapRead Masked s2 k1 = Inr 0"
proof -
  obtain s where s: "hashmapWrite Masked fresh k1 k2 = Inr s"
    by (rule fresh_written)
  moreover have "\<not> double_eq k1 0"
    by (simp add: double_eq_def is_zero_def k1_def)
  ultimately show ?thesis
    using overwrite [of fresh k1 k2 0 s] by auto
qed

text \<open>
  \<^bold>\<open>C17\<close> Delete idempotence: a second delete of the same key returns and changes
  nothing at all, neither the table nor the memory.
\<close>

theorem delete_idempotent:
  assumes "table_inv s" "hashmapDelete Masked s k = Inr s1"
  shows "hashmapDelete Masked s1 k = Inr s1"
  using assms(1)
proof (rule delete_returns [of s k])
  fix s' assume "hashmapDelete Masked s k = Inr s'" "table_inv s'"
    "table_state s' = (table_state s)(bucket_of k := abs_delete (table_state s (bucket_of k)) k)"
  with assms table_state_ok [of s "bucket_of k"] show ?thesis
    by (intro delete_absent) (simp_all add: match_index_abs_delete)
qed

theorem delete_idempotent_witness:
  "\<exists>s s'. hashmapWrite Masked fresh k1 k2 = Inr s \<and> hashmapDelete Masked s k1 = Inr s' \<and>
      hashmapDelete Masked s' k1 = Inr s'"
proof -
  obtain s where s: "hashmapWrite Masked fresh k1 k2 = Inr s" "table_inv s"
    by (rule fresh_written)
  from s(2) obtain s' where "hashmapDelete Masked s k1 = Inr s'"
    by (rule delete_step)
  with s delete_idempotent [of s k1 s'] show ?thesis
    by auto
qed

text \<open>
  \<^bold>\<open>C19\<close> A write leaves every key that does not compare equal to the written key
  as it was: a read of such a key returns the same before and after.
\<close>

theorem write_other_key:
  assumes "table_inv s" "\<not> double_eq k v" "\<not> double_eq k k'" "hashmapWrite Masked s k v = Inr s'"
  shows "hashmapRead Masked s' k' = hashmapRead Masked s k'"
  using assms(1,2,4) by (rule write_returned) (simp add: read_view assms(1,3) same_key_def)

theorem write_other_key_witness:
  "\<exists>s'. hashmapWrite Masked fresh k1 k2 = Inr s' \<and>
      hashmapRead Masked s' k2 = hashmapRead Masked fresh k2"
proof -
  obtain s where s: "hashmapWrite Masked fresh k1 k2 = Inr s"
    by (rule fresh_written)
  with write_other_key [of fresh k1 k2 k2 s] show ?thesis
    by simp
qed

text \<open>
  \<^bold>\<open>C20\<close> A delete leaves every key that does not compare equal to the deleted key
  as it was, also the key of the entry that swap-removal moves.
\<close>

theorem delete_other_key:
  assumes "table_inv s" "\<not> double_eq k k'" "hashmapDelete Masked s k = Inr s'"
  shows "hashmapRead Masked s' k' = hashmapRead Masked s k'"
  using assms(1) by (rule delete_returns [of s k]) (simp add: read_view assms same_key_def)

theorem delete_other_key_witness:
  "\<exists>s s'. hashmapWrite Masked fresh k1 k2 = Inr s \<and> hashmapDelete Masked s k2 = Inr s' \<and>
      hashmapRead Masked s' k1 = Inr k2"
proof -
  obtain s where s: "hashmapWrite Masked fresh k1 k2 = Inr s" "table_inv s"
    "view s = (\<lambda>k'. if same_key k1 k' then k2 else k')"
    by (rule fresh_written_view)
  from s(2) obtain s' where s': "hashmapDelete Masked s k2 = Inr s'"
    by (rule delete_step)
  have "\<not> double_eq k2 k1"
    using keys_differ(1) by (simp add: double_eq_sym)
  with s s' delete_other_key [of s k2 k1 s'] show ?thesis
    by (auto simp: read_view)
qed

end
