(* ===== verification/Table_Errors.thy ===== *)
theory Table_Errors
  imports Table_Laws
begin

text \<open>
  The calls that leave defined behaviour, and the places where the source
  and its specification part: a write into a bucket whose item array was
  released, the growth of a full bucket, allocation failures, keys that are
  NaN, and the two zeros.
\<close>

section \<open>Writes to one bucket in sequence\<close>

definition writes :: "entry list \<Rightarrow> op list" where
  "writes es = map (\<lambda>e. Write (fst e) (snd e)) es"

lemma run_writes:
  assumes "table_inv s" "room (mem s) \<or> table_state s i \<noteq> Unallocated"
    "list_all (\<lambda>e. bucket_of (fst e) = i \<and> \<not> double_eq (fst e) (snd e)) es"
  shows "case abs_writes (table_state s i) es of
           Inl e \<Rightarrow> run Masked s (writes es) = Inl e
         | Inr st' \<Rightarrow>
             (\<exists>s'. run Masked s (writes es) = Inr (s', []) \<and> table_inv s' \<and>
                table_state s' = (table_state s)(i := st'))"
  using assms
proof (induction es arbitrary: s)
  case Nil
  then show ?case by (simp add: writes_def)
next
  case (Cons e es)
  obtain k v where e: "e = (k, v)" by (cases e)
  with Cons.prems(3) have kv: "bucket_of k = i" "\<not> double_eq k v"
    by simp_all
  from Cons.prems(2) have room: "abs_write (room (mem s)) (table_state s i) k v =
      abs_write True (table_state s i) k v"
    by (rule abs_write_room)
  from Cons.prems(1) kv(2) show ?case
  proof (cases rule: write_step [of s k v])
    case (undefined err)
    with e kv room show ?thesis
      by (simp add: writes_def)
  next
    case (returns st1 s1)
    from returns(1) have "st1 \<noteq> Unallocated"
      by (rule abs_write_allocated)
    with returns(4) kv(1) have "room (mem s1) \<or> table_state s1 i \<noteq> Unallocated"
      by simp
    with returns(3) Cons.prems(3) have IH: "case abs_writes (table_state s1 i) es of
        Inl e \<Rightarrow> run Masked s1 (writes es) = Inl e
      | Inr st' \<Rightarrow> (\<exists>s'. run Masked s1 (writes es) = Inr (s', []) \<and> table_inv s' \<and>
           table_state s' = (table_state s1)(i := st'))"
      by (intro Cons.IH) simp_all
    from returns e kv room have run: "run Masked s (writes (e # es)) = run Masked s1 (writes es)"
      "abs_writes (table_state s i) (e # es) = abs_writes st1 es" "table_state s1 i = st1"
      by (auto simp: writes_def bindE_def split: sum.splits)
    from IH show ?thesis
      unfolding run by (auto simp: returns(4) kv(1) fun_eq_iff split: sum.splits)
  qed
qed

text \<open>Unfolding a sequence of writes by one call.\<close>

lemma writes_Cons: "writes (e # es) = Write (fst e) (snd e) # writes es"
  by (simp add: writes_def)

lemma run_Write:
  "run sem s (Write k v # cs) = bindE (hashmapWrite sem s k v) (\<lambda>s. run sem s cs)"
proof (cases "hashmapWrite sem s k v")
  case (Inr s1)
  then show ?thesis
    by (cases "run sem s1 cs") auto
qed simp

section \<open>The growth of a full bucket\<close>

text \<open>
  Nine keys that select the same bucket, 38627 (as doubles: 1474, 12035, 22145, 33862,
  36485, 42008, 55489, 67772 and 79759), each to be written with the value 1.
\<close>

definition colliding_keys :: "double list" where
  "colliding_keys =
     [0x4097080000000000, 0x40c7818000000000, 0x40d5a04000000000, 0x40e088c000000000,
      0x40e1d0a000000000, 0x40e4830000000000, 0x40eb182000000000, 0x40f08bc000000000,
      0x40f378f000000000]"

definition colliding :: "entry list" where
  "colliding = map (\<lambda>k. (k, 0x3FF0000000000000)) colliding_keys"

lemma bucket_of_hash: "hash_ref k = h \<Longrightarrow> bucket_of k = unat (h AND 0xFFFF)"
  by (simp add: bucket_of_def HASHMAP_BUCKET_MASK_def)

lemma colliding_hash: "list_all (\<lambda>k. hash_ref k = 0x96e396e3) colliding_keys"
  by code_simp

lemma colliding_differ: "list_all (\<lambda>k. \<not> double_eq k 0x3FF0000000000000) colliding_keys"
  by code_simp

lemma colliding_bucket:
  "list_all (\<lambda>e. bucket_of (fst e) = 38627 \<and> \<not> double_eq (fst e) (snd e)) colliding"
  using colliding_hash colliding_differ
  by (auto simp: colliding_def list_all_iff bucket_of_hash)

lemma length_colliding [simp]: "length colliding = 9"
  by (simp add: colliding_def colliding_keys_def)

lemma colliding_take:
  "list_all (\<lambda>e. bucket_of (fst e) = 38627 \<and> \<not> double_eq (fst e) (snd e)) (take n colliding)"
  using colliding_bucket by (auto simp: list_all_iff dest: in_set_takeD)

lemma colliding_uniq: "uniq_keys colliding"
  by code_simp

lemma colliding_writes:
  "abs_writes Unallocated (take 8 colliding) = Inr (Live (take 8 colliding))"
  "abs_writes Unallocated colliding = Inl OutOfBounds"
proof -
  have ne: "take 8 colliding \<noteq> []" "colliding \<noteq> []"
    by (simp_all add: colliding_def colliding_keys_def)
  from colliding_uniq have "uniq_keys (take 8 colliding)"
    by (rule uniq_keys_take)
  with ne(1) show "abs_writes Unallocated (take 8 colliding) = Inr (Live (take 8 colliding))"
    by (simp add: abs_writes_Unallocated capacity_def)
  from colliding_uniq ne(2) show "abs_writes Unallocated colliding = Inl OutOfBounds"
    by (simp add: abs_writes_Unallocated capacity_def)
qed

lemma eight_written:
  obtains s where "run Masked fresh (writes (take 8 colliding)) = Inr (s, [])" "table_inv s"
    "table_state s 38627 = Live (take 8 colliding)"
  using run_writes [of fresh 38627 "take 8 colliding"]
  by (auto simp: colliding_take colliding_writes)

lemma colliding_run: "run Masked fresh (writes colliding) = Inl OutOfBounds"
  using run_writes [of fresh 38627 colliding]
  by (simp add: colliding_bucket colliding_writes)

text \<open>
  \<^bold>\<open>C12\<close> A write of a new key into a bucket that holds eight entries is undefined:
  the source asks \<open>realloc\<close> for \<open>length * 2 = 16\<close> bytes, the size of one item, where
  it means 16 items, and stores the ninth item at offset 128 of that block.
\<close>

theorem ninth_write_undefined:
  assumes "table_inv s" "\<not> double_eq k v" "table_state s (bucket_of k) = Live es"
    "length es = 8" "match_index k es = None"
  shows "hashmapWrite Masked s k v = Inl OutOfBounds"
  using assms(1,2) by (cases rule: write_step [of s k v]) (simp_all add: assms(3-5) capacity_def)

theorem ninth_write_undefined_witness:
  "\<exists>s. run Masked fresh (writes (take 8 colliding)) = Inr (s, []) \<and>
      hashmapWrite Masked s 0x40f378f000000000 0x3FF0000000000000 = Inl OutOfBounds"
proof -
  obtain s where s: "run Masked fresh (writes (take 8 colliding)) = Inr (s, [])" "table_inv s"
    "table_state s 38627 = Live (take 8 colliding)"
    by (rule eight_written)
  have "hash_ref 0x40f378f000000000 = 0x96e396e3"
    by code_simp
  then have k: "bucket_of 0x40f378f000000000 = 38627"
    by (simp add: bucket_of_hash)
  have "\<not> double_eq 0x40f378f000000000 0x3FF0000000000000"
    "match_index 0x40f378f000000000 (take 8 colliding) = None"
    by code_simp+
  with s k ninth_write_undefined [of s "0x40f378f000000000" "0x3FF0000000000000" "take 8 colliding"]
  show ?thesis
    by simp
qed

text \<open>
  \<^bold>\<open>C22\<close> The growth test of the specification fails on the source, for every
  choice of keys: of more than eight writes of pairwise different keys that select the
  same, unallocated bucket, the first eight return, leaving the bucket with their eight
  entries in the order written, and the sequence as a whole is undefined, with a store
  past the end of the item array.
\<close>

theorem growth_undefined:
  assumes "table_inv s" "table_state s i = Unallocated" "room (mem s)"
    "list_all (\<lambda>e. bucket_of (fst e) = i \<and> \<not> double_eq (fst e) (snd e)) es"
    "uniq_keys es" "8 < length es"
  shows "(\<exists>s'. run Masked s (writes (take 8 es)) = Inr (s', []) \<and> table_inv s' \<and>
            table_state s' i = Live (take 8 es)) \<and>
         run Masked s (writes es) = Inl OutOfBounds"
proof -
  from assms(4) have take: "list_all (\<lambda>e. bucket_of (fst e) = i \<and> \<not> double_eq (fst e) (snd e)) (take 8 es)"
    by (auto simp: list_all_iff dest: in_set_takeD)
  from assms(6) have ne: "take 8 es \<noteq> []" "es \<noteq> []"
    by auto
  from assms(5) have "uniq_keys (take 8 es)"
    by (rule uniq_keys_take)
  with ne(1) have "abs_writes Unallocated (take 8 es) = Inr (Live (take 8 es))"
    by (simp add: abs_writes_Unallocated capacity_def)
  moreover from assms(5,6) ne(2) have "abs_writes Unallocated es = Inl OutOfBounds"
    by (simp add: abs_writes_Unallocated capacity_def)
  ultimately have "abs_writes (table_state s i) (take 8 es) = Inr (Live (take 8 es))"
    "abs_writes (table_state s i) es = Inl OutOfBounds"
    by (simp_all add: assms(2))
  with run_writes [OF assms(1) _ take] run_writes [OF assms(1) _ assms(4)] assms(2,3)
  show ?thesis
    by auto
qed

theorem growth_undefined_witness:
  "(\<exists>s. run Masked fresh (writes (take 8 colliding)) = Inr (s, [])) \<and>
   run Masked fresh (writes colliding) = Inl OutOfBounds"
  using growth_undefined [of fresh 38627 colliding]
  by (auto simp: colliding_bucket colliding_uniq)

section \<open>A bucket whose item array was released\<close>

text \<open>
  \<^bold>\<open>C11\<close> Use after free: \<open>hashmapDelete\<close> releases the item array of a bucket
  with its last entry and leaves the pointer in place, so the bucket does not return to
  the unallocated state the specification describes. After a key was written into an
  unallocated bucket and deleted again, every further write of the key is undefined: it
  stores through the dangling pointer.
\<close>

theorem write_after_delete_undefined:
  assumes "table_inv s" "table_state s (bucket_of k) = Unallocated" "\<not> is_nan k"
    "\<not> double_eq k v" "\<not> double_eq k v'" "hashmapWrite Masked s k v = Inr s1"
  shows "\<exists>s2. hashmapDelete Masked s1 k = Inr s2 \<and> hashmapRead Masked s2 k = Inr k \<and>
           hashmapWrite Masked s2 k v' = Inl UseAfterFree"
proof -
  from assms(1,4,6) obtain st1 where st1:
    "abs_write (room (mem s)) (table_state s (bucket_of k)) k v = Inr st1"
    "table_state s1 = (table_state s)(bucket_of k := st1)" "table_inv s1"
    by (rule write_returned)
  from st1(1) assms(2) have "st1 = Live [(k, v)]"
    by (simp split: if_splits)
  with st1(2) assms(3) have freed: "abs_delete (table_state s1 (bucket_of k)) k = Freed"
    by simp
  from st1(3) obtain s2 where s2: "hashmapDelete Masked s1 k = Inr s2" "table_inv s2"
    "table_state s2 =
       (table_state s1)(bucket_of k := abs_delete (table_state s1 (bucket_of k)) k)"
    using delete_step [of s1 k] by blast
  from s2(3) freed have st2: "table_state s2 (bucket_of k) = Freed"
    by simp
  with s2(2) assms(5) have "hashmapWrite Masked s2 k v' = Inl UseAfterFree"
    by (cases rule: write_step [of s2 k v']) simp_all
  with s2 st2 show ?thesis
    by (simp add: read_eq)
qed

theorem write_after_delete_undefined_witness:
  "\<exists>s1 s2. hashmapWrite Masked fresh k1 k2 = Inr s1 \<and> hashmapDelete Masked s1 k1 = Inr s2 \<and>
      hashmapWrite Masked s2 k1 k2 = Inl UseAfterFree"
proof -
  obtain s1 where "hashmapWrite Masked fresh k1 k2 = Inr s1"
    by (rule fresh_written)
  with write_after_delete_undefined [of fresh k1 k2 k2 s1] show ?thesis
    by auto
qed

section \<open>Allocations that fail\<close>

text \<open>
  \<^bold>\<open>C25\<close> The first write into a bucket when the allocator cannot provide the 128
  bytes of an item array is undefined: the result of \<open>calloc\<close> is not checked and
  the new item is stored through the null pointer.
\<close>

theorem write_without_memory:
  assumes "table_inv s" "\<not> double_eq k v" "table_state s (bucket_of k) = Unallocated"
    "\<not> room (mem s)"
  shows "hashmapWrite Masked s k v = Inl NullDeref"
  using assms(1,2) by (cases rule: write_step [of s k v]) (simp_all add: assms(3,4))

theorem write_without_memory_witness:
  "\<exists>s. hashmapCreate (empty_heap 1048592) = Inr s \<and> hashmapWrite Masked s k1 k2 = Inl NullDeref"
proof -
  from hashmapCreate_ok [of "empty_heap 1048592"] obtain s where
    s: "hashmapCreate (empty_heap 1048592) = Inr s" "table_inv s"
    "table_state s = (\<lambda>i. Unallocated)" "avail (mem s) = 0"
    by (auto simp: sizeof_hashmap_t_def sizeof_bucket_t_def)
  then have "\<not> room (mem s)"
    by (simp add: room_def HASHMAP_BUCKET_INITSIZE_def sizeof_bucketItem_t_def)
  with s write_without_memory [of s k1 k2] show ?thesis
    by simp
qed

text \<open>
  \<^bold>\<open>C26\<close> \<open>hashmapCreate\<close> does not check its allocations either: without memory
  for the \<open>hashmap_t\<close> it writes through the null pointer, and with memory for the
  \<open>hashmap_t\<close> but not for the buckets it returns a table on which every call is
  undefined.
\<close>

theorem hashmapCreate_without_memory:
  assumes "avail h < sizeof_hashmap_t + 65536 * sizeof_bucket_t"
  shows "hashmapCreate h = Inl NullDeref \<or>
         (\<exists>s. hashmapCreate h = Inr s \<and> hashmapRead Masked s k = Inl NullDeref \<and>
            hashmapWrite Masked s k v = Inl NullDeref \<and> hashmapDelete Masked s k = Inl NullDeref)"
proof (cases h rule: hashmapCreate_cases)
  case (no_buckets s)
  then show ?thesis
    by (simp add: hashmapRead_def hashmapWrite_def hashmapDelete_def get_bucket_def)
qed (use assms in simp_all)

theorem hashmapCreate_without_memory_witness:
  "hashmapCreate (empty_heap 8) = Inl NullDeref \<and>
   (\<exists>s. hashmapCreate (empty_heap 1024) = Inr s \<and> hashmapRead Masked s k1 = Inl NullDeref)"
  using hashmapCreate_without_memory [of "empty_heap 8" k1 k2]
    hashmapCreate_without_memory [of "empty_heap 1024" k1 k2]
  by (auto simp: sizeof_hashmap_t_def sizeof_bucket_t_def hashmapCreate_def calloc_def alloc_def)

section \<open>Keys that are NaN\<close>

definition nan :: double where "nan = 0x7FF8000000000000"

lemma is_nan_nan [simp]: "is_nan nan"
  by (simp add: is_nan_def nan_def)

text \<open>
  \<^bold>\<open>C23\<close> The source compares keys with \<open>==\<close>, under which a NaN equals nothing,
  where the specification asks for a comparison of bit patterns. A write under a key that
  is a NaN therefore always appends an entry, and no read ever finds it: the read of the
  key returns the key.
\<close>

theorem nan_key_lost:
  assumes "table_inv s" "is_nan k" "hashmapWrite Masked s k v = Inr s'"
  shows "hashmapRead Masked s' k = Inr k \<and>
         entries (table_state s' (bucket_of k)) = entries (table_state s (bucket_of k)) @ [(k, v)]"
proof -
  from assms(2) have "\<not> double_eq k v"
    by simp
  with assms(1) obtain st' where
    "abs_write (room (mem s)) (table_state s (bucket_of k)) k v = Inr st'"
    "table_state s' = (table_state s)(bucket_of k := st')" "table_inv s'"
    using assms(3) by (rule write_returned)
  with assms(2) show ?thesis
    by (simp add: read_view abs_write_nan)
qed

theorem nan_key_lost_witness:
  "\<exists>s'. hashmapWrite Masked fresh nan k2 = Inr s' \<and> hashmapRead Masked s' nan = Inr nan \<and>
      entries (table_state s' (bucket_of nan)) = [(nan, k2)]"
proof -
  obtain s' where "hashmapWrite Masked fresh nan k2 = Inr s'"
    by (rule fresh_write [of nan k2]) simp
  with nan_key_lost [of fresh nan k2 s'] show ?thesis
    by simp
qed

text \<open>
  \<^bold>\<open>C27\<close> Writes under one and the same NaN key accumulate: if \<open>n\<close> of them in
  a row return, the bucket holds \<open>n\<close> more entries with that key than before, and there
  was room for them. So from no well-formed table do nine such writes all return.
\<close>

theorem nan_writes_accumulate:
  assumes "table_inv s" "is_nan k" "run Masked s (writes (replicate n (k, v))) = Inr (s', outs)"
  shows "entries (table_state s' (bucket_of k)) =
           entries (table_state s (bucket_of k)) @ replicate n (k, v) \<and>
         length (entries (table_state s (bucket_of k))) + n \<le> 8"
  using assms(1,3)
proof (induction n arbitrary: s)
  case 0
  from table_state_ok [OF "0.prems"(1), of "bucket_of k"]
  have "length (entries (table_state s (bucket_of k))) \<le> 8"
    by (cases "table_state s (bucket_of k)") (simp_all add: capacity_def)
  with "0.prems"(2) show ?case
    by (simp add: writes_def)
next
  case (Suc n)
  from assms(2) have ne: "\<not> double_eq k v"
    by simp
  from Suc.prems(2) obtain s1 where s1: "hashmapWrite Masked s k v = Inr s1"
    "run Masked s1 (writes (replicate n (k, v))) = Inr (s', outs)"
    by (auto simp: writes_Cons run_Write bindE_eq_Inr_iff)
  from Suc.prems(1) ne s1(1) obtain st' where st':
    "abs_write (room (mem s)) (table_state s (bucket_of k)) k v = Inr st'"
    "table_state s1 = (table_state s)(bucket_of k := st')" "table_inv s1"
    by (rule write_returned)
  from assms(2) st'(1) have "entries st' = entries (table_state s (bucket_of k)) @ [(k, v)]"
    by (rule abs_write_nan)
  with Suc.IH [OF st'(3) s1(2)] st'(2) show ?case
    by (simp add: replicate_app_Cons_same)
qed

theorem nan_writes_accumulate_witness:
  "\<exists>s'. run Masked fresh (writes (replicate 2 (nan, k2))) = Inr (s', []) \<and>
      entries (table_state s' (bucket_of nan)) = [(nan, k2), (nan, k2)]"
proof -
  have "abs_writes Unallocated (replicate 2 (nan, k2)) = Inr (Live (replicate 2 (nan, k2)))"
    by (simp add: numeral_2_eq_2 capacity_def)
  with run_writes [of fresh "bucket_of nan" "replicate 2 (nan, k2)"]
  obtain s' where s': "run Masked fresh (writes (replicate 2 (nan, k2))) = Inr (s', [])"
    by (auto simp: list_all_iff)
  with nan_writes_accumulate [of fresh nan 2 k2 s' "[]"] show ?thesis
    by (auto simp: numeral_2_eq_2)
qed

section \<open>The two zeros\<close>

text \<open>
  \<^bold>\<open>C24\<close> A write of the value \<open>-0.0\<close> under the key \<open>+0.0\<close> stores nothing: the
  two differ bit for bit, so the specification has the entry stored, but they compare
  equal with \<open>==\<close>, so the source deletes the key.
\<close>

theorem zero_write_is_delete:
  assumes "table_inv s"
  shows "\<exists>s'. hashmapWrite Masked s 0 0x8000000000000000 = Inr s' \<and>
           hashmapDelete Masked s 0 = Inr s' \<and> hashmapRead Masked s' 0 = Inr 0"
proof -
  have eq: "double_eq 0 0x8000000000000000"
    by (simp add: double_eq_def is_zero_def is_nan_def)
  from assms show ?thesis
    by (rule delete_returns [of s 0]) (simp add: write_equal read_view eq)
qed

theorem zero_write_is_delete_witness:
  "\<exists>s'. hashmapWrite Masked fresh 0 0x8000000000000000 = Inr s' \<and>
      hashmapRead Masked s' 0 = Inr 0"
  using zero_write_is_delete [of fresh] by auto

text \<open>
  \<^bold>\<open>C28\<close> The two zeros compare equal but select different buckets (42621 and
  47101), so they are different keys of the table: a write under \<open>+0.0\<close> shows in a
  read of \<open>+0.0\<close> and leaves a read of \<open>-0.0\<close> as it was.
\<close>

theorem signed_zeros_split:
  assumes "table_inv s" "\<not> double_eq 0 v" "hashmapWrite Masked s 0 v = Inr s'"
  shows "double_eq 0 0x8000000000000000 \<and> hashmapRead Masked s' 0 = Inr v \<and>
         hashmapRead Masked s' 0x8000000000000000 = hashmapRead Masked s 0x8000000000000000"
proof -
  have "hash_ref 0 = 0xa67da67d" "hash_ref 0x8000000000000000 = 0xb7fdb7fd"
    by code_simp+
  then have "bucket_of 0 = 42621" "bucket_of 0x8000000000000000 = 47101"
    by (simp_all add: bucket_of_hash)
  then have keys: "\<not> same_key 0 0x8000000000000000" "same_key 0 0"
    by (simp_all add: same_key_def is_nan_def)
  have "double_eq 0 0x8000000000000000"
    by (simp add: double_eq_def is_zero_def is_nan_def)
  moreover from assms have "hashmapRead Masked s' 0 = Inr v \<and>
      hashmapRead Masked s' 0x8000000000000000 = hashmapRead Masked s 0x8000000000000000"
    by (rule write_returned) (simp add: read_view keys assms(1) is_nan_def)
  ultimately show ?thesis
    by simp
qed

theorem signed_zeros_split_witness:
  "\<exists>s'. hashmapWrite Masked fresh 0 k2 = Inr s' \<and> hashmapRead Masked s' 0 = Inr k2 \<and>
      hashmapRead Masked s' 0x8000000000000000 = Inr 0x8000000000000000"
proof -
  have ne: "\<not> double_eq 0 k2"
    by (simp add: double_eq_def is_zero_def is_nan_def k2_def)
  then obtain s' where s': "hashmapWrite Masked fresh 0 k2 = Inr s'"
    by (rule fresh_write)
  with ne signed_zeros_split [of fresh k2 s'] show ?thesis
    by (simp add: read_view)
qed

end
