(* ===== verification/Reachable.thy ===== *)
theory Reachable
  imports Table_Errors
begin

text \<open>
  The table as a state machine: its states are the ones \<open>hashmapCreate\<close>
  returns and the ones a call of \<open>hashmapRead\<close>, \<open>hashmapWrite\<close> or
  \<open>hashmapDelete\<close> returns from a reachable state. The invariant holds in
  all of them, and a sequence of calls can only stop in one of three errors.
\<close>

section \<open>One call\<close>

lemma step_returns:
  assumes "table_inv s" "step Masked s c = Inr (s', out)"
  shows "table_inv s'" "hm_itemCount (tbl s') = hm_itemCount (tbl s)"
    "out = (case c of Read k \<Rightarrow> Some (view s k) | _ \<Rightarrow> None)"
proof -
  have "table_inv s' \<and> hm_itemCount (tbl s') = hm_itemCount (tbl s) \<and>
      out = (case c of Read k \<Rightarrow> Some (view s k) | _ \<Rightarrow> None)"
  proof (cases c)
    case (Read k)
    with assms show ?thesis
      by (auto simp: read_view)
  next
    case (Delete k)
    with assms show ?thesis
      by (auto simp: bindE_eq_Inr_iff elim: delete_returns [of s k])
  next
    case (Write k v)
    show ?thesis
    proof (cases "double_eq k v")
      case True
      with Write assms show ?thesis
        by (auto simp: bindE_eq_Inr_iff write_equal elim: delete_returns [of s k])
    next
      case False
      with Write assms show ?thesis
        by (auto simp: bindE_eq_Inr_iff elim: write_returned [of s k v])
    qed
  qed
  then show "table_inv s'" "hm_itemCount (tbl s') = hm_itemCount (tbl s)"
    "out = (case c of Read k \<Rightarrow> Some (view s k) | _ \<Rightarrow> None)"
    by simp_all
qed

lemma step_fails:
  assumes "table_inv s" "step Masked s c = Inl e"
  obtains k v where "c = Write k v" "\<not> double_eq k v"
    "abs_write (room (mem s)) (table_state s (bucket_of k)) k v = Inl e"
proof (cases c)
  case (Read k)
  with assms show ?thesis
    by (simp add: read_view)
next
  case (Delete k)
  with assms show ?thesis
    by (auto elim: delete_returns [of s k])
next
  case (Write k v)
  show ?thesis
  proof (cases "double_eq k v")
    case True
    with Write assms show ?thesis
      by (auto simp: write_equal elim: delete_returns [of s k])
  next
    case False
    from assms(1) False show ?thesis
    proof (cases rule: write_step [of s k v])
      case (undefined e')
      with Write assms False show ?thesis
        by (intro that [of k v]) simp_all
    next
      case (returns st' s'')
      with Write assms show ?thesis by simp
    qed
  qed
qed

section \<open>Sequences of calls\<close>

text \<open>
  \<^bold>\<open>C21\<close> A sequence of calls on a well-formed table that returns leaves a
  well-formed table with the same item count.
\<close>

theorem run_inv:
  assumes "table_inv s" "run Masked s cs = Inr (s', outs)"
  shows "table_inv s' \<and> hm_itemCount (tbl s') = hm_itemCount (tbl s)"
  using assms
proof (induction cs arbitrary: s outs)
  case Nil
  then show ?case by simp
next
  case (Cons c cs)
  from Cons.prems(2) obtain s1 out outs1 where s1: "step Masked s c = Inr (s1, out)"
    "run Masked s1 cs = Inr (s', outs1)"
    by (auto simp: bindE_eq_Inr_iff)
  from Cons.prems(1) s1(1) have "table_inv s1" "hm_itemCount (tbl s1) = hm_itemCount (tbl s)"
    by (rule step_returns)+
  with Cons.IH [OF _ s1(2)] show ?case
    by simp
qed

theorem run_inv_witness:
  "\<exists>s'. run Masked fresh [Write k1 k2, Read k1, Delete k1, Read k1] = Inr (s', [k2, k1]) \<and>
      hm_itemCount (tbl s') = 0"
proof -
  obtain s where s: "hashmapWrite Masked fresh k1 k2 = Inr s" "table_inv s"
    "view s = (\<lambda>k'. if same_key k1 k' then k2 else k')"
    by (rule fresh_written_view)
  from s(2) obtain s' where s': "hashmapDelete Masked s k1 = Inr s'" "table_inv s'"
    "\<And>k'. view s' k' = (if same_key k1 k' then k' else view s k')"
    using delete_returns [of s k1] by blast
  with s have run: "run Masked fresh [Write k1 k2, Read k1, Delete k1, Read k1] = Inr (s', [k2, k1])"
    by (simp add: read_view)
  have "hm_itemCount (tbl fresh) = 0"
    by (simp add: fresh_def)
  with run_inv [OF fresh_inv run] run show ?thesis
    by auto
qed

text \<open>
  \<^bold>\<open>C13\<close> A sequence of calls on a well-formed table that does not return stops
  in a write, with a null item array, a released item array or a store past the end
  of the item array; no read and no delete is ever undefined, no slot is read before
  it is written, and no block is released twice.
\<close>

theorem run_errors:
  assumes "table_inv s" "run Masked s cs = Inl e"
  shows "e = NullDeref \<or> e = UseAfterFree \<or> e = OutOfBounds"
  using assms
proof (induction cs arbitrary: s)
  case Nil
  then show ?case by simp
next
  case (Cons c cs)
  show ?case
  proof (cases "step Masked s c")
    case (Inl e')
    with Cons.prems show ?thesis
      by (auto elim!: step_fails [of s c e] dest: abs_write_errors)
  next
    case (Inr r)
    obtain s1 out where r: "r = (s1, out)" by (cases r)
    with Inr Cons.prems(1) have "table_inv s1"
      by (auto dest: step_returns(1))
    moreover from Inr r Cons.prems(2) have "run Masked s1 cs = Inl e"
      by (auto simp: bindE_eq_Inl_iff)
    ultimately show ?thesis
      by (rule Cons.IH)
  qed
qed

theorem run_errors_witness:
  "\<exists>e. run Masked fresh (writes colliding) = Inl e \<and>
      (e = NullDeref \<or> e = UseAfterFree \<or> e = OutOfBounds)"
  using run_errors [of fresh "writes colliding" OutOfBounds] by (simp add: colliding_run)

section \<open>Reachable states\<close>

inductive reachable :: "state \<Rightarrow> bool" where
  created: "heap_ok h \<Longrightarrow> hashmapCreate h = Inr s \<Longrightarrow> reachable s"
| stepped: "reachable s \<Longrightarrow> step Masked s c = Inr (s', out) \<Longrightarrow> reachable s'"

inductive_cases reachableE: "reachable s"

text \<open>A table without buckets: the second allocation of \<open>hashmapCreate\<close> failed.\<close>

lemma no_buckets_step: "buckets (tbl s) = None \<Longrightarrow> step Masked s c = Inl NullDeref"
  by (cases c) (simp_all add: hashmapRead_def hashmapWrite_def hashmapDelete_def get_bucket_def)

text \<open>
  \<^bold>\<open>C6\<close> Every state the table can reach from a creation by calls that return is
  well formed, or is the table without buckets that a creation short of memory returns
  and on which no call returns; and the item count of the table is 0 in all of them: no
  operation of the source ever counts an item.
\<close>

theorem reachable_inv:
  "reachable s \<Longrightarrow> (table_inv s \<or> buckets (tbl s) = None) \<and> hm_itemCount (tbl s) = 0"
proof (induction rule: reachable.induct)
  case (created h s)
  show ?case
  proof (cases h rule: hashmapCreate_cases)
    case no_table
    with created show ?thesis by simp
  next
    case (no_buckets s')
    with created show ?thesis by simp
  next
    case created': created
    with created hashmapCreate_ok [of h] show ?thesis by auto
  qed
next
  case (stepped s c s' out)
  with no_buckets_step [of s c] have "table_inv s"
    by auto
  with stepped show ?case
    by (auto dest: step_returns)
qed

theorem reachable_inv_witness:
  "\<exists>s. reachable s \<and> hashmapRead Masked s k1 = Inr k2 \<and> hm_itemCount (tbl s) = 0"
proof -
  obtain s where s: "hashmapWrite Masked fresh k1 k2 = Inr s" "table_inv s"
    "view s = (\<lambda>k'. if same_key k1 k' then k2 else k')"
    by (rule fresh_written_view)
  have "reachable fresh"
    by (rule reachable.created [of "empty_heap 2097152"]) (simp_all add: fresh_created)
  then have "reachable s"
    by (rule reachable.stepped [of fresh "Write k1 k2" s None]) (simp add: s(1))
  with reachable_inv [of s] s(2,3) show ?thesis
    by (auto simp: read_view)
qed

end
