(* ===== verification/Spec2Isabelle.thy ===== *)
theory Spec2Isabelle
  imports Reachable
begin

text \<open>
  A verification development for \<open>src/hashmap.c\<close>: a hash table from \<open>double\<close>
  keys to \<open>double\<close> values with 65536 buckets, each bucket an array of
  (key, value) items, and the hash function that selects the bucket.

  \<^bold>\<open>The program.\<close> \<open>hashFunction\<close> mixes the eight bytes of a key into a
  32-bit word with the two rotation helpers \<open>rotateLeft\<close> and \<open>rotateRight\<close>.
  \<open>hashmapCreate\<close> allocates the table with \<open>calloc\<close>; \<open>hashmapRead\<close>,
  \<open>hashmapDelete\<close> and \<open>hashmapWrite\<close> select the bucket
  \<open>hashFunction(key) & 0xFFFF\<close> and scan its items. A read of an absent key
  returns the key; a write of a value equal to its key is a delete; a delete moves
  the last item into the place of the deleted one and releases the item array with
  the last item; a write allocates the item array of 8 items on first use and calls
  \<open>realloc\<close> when the bucket is full.

  \<^bold>\<open>The model\<close> has three layers.
  \<^item> The C functions, translated line by line. Machine integers are words
    (\<open>unsigned int\<close>, \<open>uint32_t\<close> are \<open>32 word\<close>), a \<open>double\<close> is its 64-bit
    pattern, memory is an explicit heap, and every function returns a value of
    \<open>error + 'a\<close>: \<open>Inl e\<close> where the C standard gives the execution no meaning
    (null dereference, use after free, out-of-bounds access, read of indeterminate
    memory, double free, shift by an out-of-range count), \<open>Inr x\<close> where it returns.
  \<^item> The list specification of one bucket (\<open>Entries\<close>): a bucket is unallocated,
    live with a list of entries, or freed, and \<open>abs_read\<close>, \<open>abs_write\<close>,
    \<open>abs_delete\<close> say what the operations do to it, errors included.
  \<^item> The table as a function from keys to values (\<open>view\<close> in \<open>Table_Laws\<close>).

  \<^bold>\<open>The theories\<close>, in the order of their dependencies.
  \<^item> \<open>Prelude\<close>: the integer types, the type \<open>error + 'a\<close> with \<open>bindE\<close>, the
    fact collections, and lemmas on loop counters that are words.
  \<^item> \<open>Double\<close>: \<open>bytes\<close> is the byte view of the union \<open>double_u\<close>;
    \<open>double_eq\<close> is the operator \<open>==\<close> of the source on doubles (IEEE 754: a NaN
    equals nothing, the two zeros are equal), on bit patterns.
  \<^item> \<open>Hash\<close>: \<open>shl\<close>, \<open>shr\<close>, \<open>rotateLeft\<close>, \<open>rotateRight\<close>, \<open>hash_step\<close>
    (the loop body), \<open>hash_loop\<close> (the \<open>for\<close> loop) and \<open>hashFunction\<close>, each with
    a parameter that says how a shift by an out-of-range count is read: \<open>ISO_C\<close>
    (undefined) or \<open>Masked\<close> (the count modulo 32, what x86 and ARM compute and
    what the specification asks for). The lemmas show that the masked rotations are
    the rotations of the word library, that the masked hash is the reference hash
    \<open>hash_ref\<close>, that under ISO C every call is undefined, that every hash has
    equal halves, and that an iteration of the loop agrees with the specification
    exactly when \<open>data[i] + i\<close> does not exceed 255: the source adds in 32 bits,
    the specification in 8.
  \<^item> \<open>Heap\<close>: the allocator (\<open>calloc\<close>, \<open>realloc\<close>, \<open>free\<close>) and \<open>load\<close> and
    \<open>store\<close> of a \<open>double\<close> slot. This code is not part of the repository; it is
    modelled from the C standard.
  \<^item> \<open>Bucket\<close>: \<open>bucket_t\<close> and the parts of the three operations that work on one
    bucket: \<open>read_loop\<close>, \<open>bucket_read\<close> (\<open>hashmapRead\<close>); \<open>delete_at\<close>,
    \<open>delete_loop\<close>, \<open>bucket_delete\<close> (\<open>hashmapDelete\<close>); \<open>bucket_init\<close>,
    \<open>write_scan\<close>, \<open>bucket_grow\<close>, \<open>bucket_append\<close>, \<open>bucket_write\<close> (\<open>hashmapWrite\<close>).
  \<^item> \<open>Hashmap\<close>: \<open>hashmap_t\<close>, \<open>hashmapCreate\<close>, \<open>hashmapRead\<close>, \<open>hashmapDelete\<close>,
    \<open>hashmapWrite\<close> on a state of heap and table, and the calls of a client as
    a datatype \<open>op\<close> with \<open>step\<close> and \<open>run\<close>. The repository has no client
    (\<open>main\<close> is empty): these three follow the operation contract of the
    specification and serve to state properties of sequences of calls.
  \<^item> \<open>Entries\<close>: the list specification and its algebra (search, swap-removal,
    uniqueness of keys, reading after writing and deleting).
  \<^item> \<open>Bucket_Correct\<close>: \<open>bucket_state\<close> reads the state of a bucket off the heap and
    is its invariant at once; each scan is characterised on a live bucket, and
    \<open>bucket_read\<close>, \<open>bucket_write\<close>, \<open>bucket_delete\<close> are shown to implement
    \<open>abs_read\<close>, \<open>abs_write\<close>, \<open>abs_delete\<close> while touching no memory but their own
    (\<open>local_step\<close>). \<open>delete_first\<close> is the delete scan of the specification, which
    stops at the first match; the scan of the source is shown equal to it.
  \<^item> \<open>Hashmap_Correct\<close>: the invariant \<open>table_inv\<close> of the table (well-formed
    heap, 65536 well-formed buckets, no item array shared), that \<open>hashmapCreate\<close>
    establishes it, the refinement of the list specification by the three
    operations, and the bounds on counts and lengths that follow.
  \<^item> \<open>Table_Laws\<close>: the laws of the specification (read after write, absence
    echo, delete via equal write, overwrite, delete idempotence) and the frame laws,
    through the function \<open>view\<close> the table denotes.
  \<^item> \<open>Table_Errors\<close>: the calls that are undefined and the places where source
    and specification part: use after free after a bucket was emptied, the growth of
    a full bucket (for every choice of colliding keys), unchecked allocations, NaN keys
    (whose entries accumulate), the zeros.
  \<^item> \<open>Reachable\<close>: the inductive set of reachable states, the invariant along
    sequences of calls, and the errors a sequence can stop with.

  \<^bold>\<open>Loops and bounds.\<close> No fuel is used. The hash loop is a terminating
  recursion on its counter (measure \<open>8 - i\<close>); the three scans are terminating
  recursions with measure \<open>itemCount - i\<close>, where for \<open>delete_loop\<close> the count
  decreases during the loop. The counters are 32-bit words; in a well-formed bucket
  the count is at most 8, so no counter wraps. The heap has a budget of bytes
  (\<open>avail\<close>), which is what makes allocation failure a case of the model. The table
  of the examples is created on an empty heap of 2 MiB, enough for the table
  (16 + 65536 * 16 bytes) and several thousand item arrays.

  \<^bold>\<open>Assumptions.\<close> \<open>unsigned int\<close> has 32 bits, pointers and \<open>size_t\<close> 64, so
  \<open>sizeof(bucketItem_t)\<close>, \<open>sizeof(bucket_t)\<close> and \<open>sizeof(hashmap_t)\<close> are 16; the
  bytes of a \<open>double\<close> are stored least significant first. \<open>realloc\<close> always
  moves the block, and no address is handed out twice, so that every access through a
  stale pointer is recognised; a real allocator that reuses addresses can only hide
  such an access, not make it defined. The test \<open>bucket->items == NULL\<close> on a
  pointer to a released block is taken to be false, as every implementation computes
  it, although the C standard leaves the value of such a pointer indeterminate. In
  \<open>hashmapCreate\<close> a failed first \<open>calloc\<close> is reported as the null dereference it
  leads to, whether or not the second \<open>calloc\<close> is evaluated before the store. The
  table operations are proved under the masked reading of shifts, since under ISO C
  no call returns.

  \<^bold>\<open>What the development found.\<close> Under ISO C every call of \<open>hashFunction\<close>
  shifts by 32. \<open>hashmapDelete\<close> leaves the pointer to the released item array in
  the bucket, so the bucket never returns to the unallocated state and the next write
  into it is a use after free. \<open>realloc\<close> is passed a number of items as a number of
  bytes, so a ninth entry in a bucket is stored out of bounds; as a consequence a bucket
  never holds more than eight entries and its length field is always 8. Keys are
  compared with \<open>==\<close>, not bit for bit: a NaN key is never found again, and a write of
  \<open>-0.0\<close> under \<open>+0.0\<close> deletes. No allocation is checked. The item count of the
  table is never written.

  \<^bold>\<open>Not modelled.\<close> \<open>main\<close>, which returns 0. The layout of \<open>hashmap_t\<close> and of
  the bucket array in memory: the table is a record and a list, and only the item
  arrays are blocks of the heap whose slots are read and written; the two blocks
  \<open>hashmapCreate\<close> allocates are accounted for in the heap but not read. Concurrent
  use, which the source does not provide for. Still to be added: the refinement of
  sequences of calls to a machine on the list states that tracks the memory budget,
  and the second invariant of the specification (no entry whose value equals its key).
\<close>

end
